theory Spec2Isabelle
  imports Main
begin

section \<open>Strings as the parser sees them\<close>

text \<open>
  The script works on JavaScript strings. They are modelled as \<^typ>\<open>string\<close>: a list
  of 8-bit characters, read as the code units 0..255 (Latin-1). \<open>String.fromCharCode\<close> of a
  two-digit hex escape and the result of \<open>atob\<close> stay in that range.
\<close>

abbreviation NL :: char where "NL \<equiv> CHR 0x0A"
abbreviation CR :: char where "CR \<equiv> CHR 0x0D"
abbreviation TAB :: char where "TAB \<equiv> CHR 0x09"

text \<open>\<open>String.prototype.trim\<close>: white space and line terminators below code 256.\<close>

definition isWhiteSpace :: "char \<Rightarrow> bool" where
  "isWhiteSpace c = (of_char c \<in> {9, 10, 11, 12, 13, 32, 160 :: nat})"

definition trim :: "string \<Rightarrow> string" where
  "trim s = rev (dropWhile isWhiteSpace (rev (dropWhile isWhiteSpace s)))"

text \<open>\<open>toLowerCase\<close> on code units below 256: A-Z and the Latin-1 capitals.\<close>

definition toLowerChar :: "char \<Rightarrow> char" where
  "toLowerChar c = (let n = (of_char c :: nat) in
     if (65 \<le> n \<and> n \<le> 90) \<or> (192 \<le> n \<and> n \<le> 222 \<and> n \<noteq> 215)
     then char_of (n + 32) else c)"

definition toLowerCase :: "string \<Rightarrow> string" where
  "toLowerCase s = map toLowerChar s"

definition startsWith :: "string \<Rightarrow> string \<Rightarrow> bool" where
  "startsWith s p = (take (length p) s = p)"

text \<open>\<open>s.includes(sub)\<close>: a scan for the first position where \<open>sub\<close> starts.\<close>

fun includes_str :: "string \<Rightarrow> string \<Rightarrow> bool" where
  "includes_str [] sub = (sub = [])"
| "includes_str (c # cs) sub = (startsWith (c # cs) sub \<or> includes_str cs sub)"

text \<open>\<open>s.indexOf(sub)\<close>, with \<open>-1\<close> when there is no occurrence.\<close>

fun indexOf :: "string \<Rightarrow> string \<Rightarrow> int" where
  "indexOf [] sub = (if sub = [] then 0 else - 1)"
| "indexOf (c # cs) sub =
     (if startsWith (c # cs) sub then 0
      else (let r = indexOf cs sub in if r < 0 then - 1 else r + 1))"

text \<open>\<open>s.split(d)\<close> for a one-character separator, and \<open>parts.join(sep)\<close>.\<close>

fun split_char :: "char \<Rightarrow> string \<Rightarrow> string list" where
  "split_char d [] = [[]]"
| "split_char d (c # cs) =
     (if c = d then [] # split_char d cs
      else (case split_char d cs of [] \<Rightarrow> [[c]] | p # ps \<Rightarrow> (c # p) # ps))"

fun join :: "string \<Rightarrow> string list \<Rightarrow> string" where
  "join sep [] = []"
| "join sep [x] = x"
| "join sep (x # y # ys) = x @ sep @ join sep (y # ys)"

section \<open>The regular expressions of the script\<close>

text \<open>
  Every pattern in the script except the block delimiter is a sequence of quantified
  character classes. An \<open>Item P lo hi g\<close> matches between \<open>lo\<close> and \<open>hi\<close> characters
  satisfying \<open>P\<close>, trying the longest count first when greedy and the shortest first
  when lazy; the matcher backtracks over these counts as the JavaScript engine does.
  The result lists the text matched by each item, and the unread rest.
\<close>

datatype greed = Greedy | Lazy

datatype item = Item "char \<Rightarrow> bool" nat "nat option" greed

fun first_some :: "('a \<Rightarrow> 'b option) \<Rightarrow> 'a list \<Rightarrow> 'b option" where
  "first_some f [] = None"
| "first_some f (x # xs) = (case f x of Some y \<Rightarrow> Some y | None \<Rightarrow> first_some f xs)"

definition counts :: "nat \<Rightarrow> nat option \<Rightarrow> greed \<Rightarrow> nat \<Rightarrow> nat list" where
  "counts lo hi g run =
     (let mx = (case hi of None \<Rightarrow> run | Some h \<Rightarrow> min h run) in
      if mx < lo then []
      else (case g of Greedy \<Rightarrow> rev [lo ..< Suc mx] | Lazy \<Rightarrow> [lo ..< Suc mx]))"

fun matchItems :: "item list \<Rightarrow> string \<Rightarrow> (string list \<times> string) option" where
  "matchItems [] s = Some ([], s)"
| "matchItems (Item P lo hi g # its) s =
     first_some
       (\<lambda>k. case matchItems its (drop k s) of
               None \<Rightarrow> None
             | Some (gs, r) \<Rightarrow> Some (take k s # gs, r))
       (counts lo hi g (length (takeWhile P s)))"

definition ch :: "char \<Rightarrow> item" where
  "ch c = Item (\<lambda>x. x = c) 1 (Some 1) Greedy"

definition optional :: "char \<Rightarrow> item" where
  "optional c = Item (\<lambda>x. x = c) 0 (Some 1) Greedy"

definition oneOrMore :: "(char \<Rightarrow> bool) \<Rightarrow> item" where
  "oneOrMore P = Item P 1 None Greedy"

text \<open>The text captured by the items \<open>i, ..., i + n - 1\<close> of a match.\<close>

definition captured :: "nat \<Rightarrow> nat \<Rightarrow> string list \<Rightarrow> string" where
  "captured i n gs = concat (take n (drop i gs))"

text \<open>\<open>s.match(re)\<close> without the \<open>g\<close> flag: the leftmost match.\<close>

fun search :: "item list \<Rightarrow> string \<Rightarrow> string list option" where
  "search re [] = (case matchItems re [] of Some (gs, r) \<Rightarrow> Some gs | None \<Rightarrow> None)"
| "search re (c # cs) =
     (case matchItems re (c # cs) of Some (gs, r) \<Rightarrow> Some gs | None \<Rightarrow> search re cs)"

text \<open>
  \<open>s.replace(re, f)\<close> with the \<open>g\<close> flag: matches are taken left to right and do not
  overlap; replaced text is not scanned again. After an empty match the scan moves on by
  one character.
\<close>

function replaceAll :: "item list \<Rightarrow> (string list \<Rightarrow> string) \<Rightarrow> string \<Rightarrow> string" where
  "replaceAll re f [] = (case matchItems re [] of Some (gs, r) \<Rightarrow> f gs | None \<Rightarrow> [])"
| "replaceAll re f (c # cs) =
     (case matchItems re (c # cs) of
        None \<Rightarrow> c # replaceAll re f cs
      | Some (gs, r) \<Rightarrow>
          if length r < Suc (length cs) then f gs @ replaceAll re f r
          else f gs @ c # replaceAll re f cs)"
  by pat_completeness auto
termination
  by (relation "measure (\<lambda>(re, f, s). length s)") auto

definition isAlpha :: "char \<Rightarrow> bool" where
  "isAlpha c = (let n = (of_char c :: nat) in (65 \<le> n \<and> n \<le> 90) \<or> (97 \<le> n \<and> n \<le> 122))"

definition isDigit :: "char \<Rightarrow> bool" where
  "isDigit c = (let n = (of_char c :: nat) in 48 \<le> n \<and> n \<le> 57)"

definition isUpperHex :: "char \<Rightarrow> bool" where
  "isUpperHex c = (let n = (of_char c :: nat) in (48 \<le> n \<and> n \<le> 57) \<or> (65 \<le> n \<and> n \<le> 70))"

text \<open>\<^verbatim>\<open>/<([^>]+)>/\<close>\<close>

definition re_angle :: "item list" where
  "re_angle = [ch (CHR ''<''), oneOrMore (\<lambda>c. c \<noteq> CHR ''>''), ch (CHR ''>'')]"

text \<open>\<^verbatim>\<open>/([a-zA-Z0-9._%+-]+@[a-zA-Z0-9.-]+\.[a-zA-Z]{2,})/\<close>\<close>

definition re_address :: "item list" where
  "re_address =
     [oneOrMore (\<lambda>c. isAlpha c \<or> isDigit c \<or> c \<in> set ''._%+-''),
      ch (CHR ''@''),
      oneOrMore (\<lambda>c. isAlpha c \<or> isDigit c \<or> c \<in> set ''.-''),
      ch (CHR ''.''),
      Item isAlpha 2 None Greedy]"

text \<open>\<^verbatim>\<open>/^([^<]+)</\<close>, matched at the start of the field only.\<close>

definition re_name :: "item list" where
  "re_name = [oneOrMore (\<lambda>c. c \<noteq> CHR ''<''), ch (CHR ''<'')]"

text \<open>\<^verbatim>\<open>/=\?[^?]+\?[BQ]\?([^?]+)\?=/gi\<close>; the \<open>i\<close> flag lets \<open>[BQ]\<close> match lower case too.\<close>

definition re_encoded :: "item list" where
  "re_encoded =
     [ch (CHR ''=''), ch (CHR ''?''),
      oneOrMore (\<lambda>c. c \<noteq> CHR ''?''),
      ch (CHR ''?''),
      Item (\<lambda>c. c \<in> set ''BQbq'') 1 (Some 1) Greedy,
      ch (CHR ''?''),
      oneOrMore (\<lambda>c. c \<noteq> CHR ''?''),
      ch (CHR ''?''), ch (CHR ''='')]"

text \<open>\<^verbatim>\<open>/=\r?\n/g\<close>\<close>

definition re_softbreak :: "item list" where
  "re_softbreak = [ch (CHR ''=''), optional CR, ch NL]"

text \<open>\<^verbatim>\<open>/=([0-9A-F]{2})/g\<close>\<close>

definition re_hex :: "item list" where
  "re_hex = [ch (CHR ''=''), Item isUpperHex 2 (Some 2) Greedy]"

text \<open>\<^verbatim>\<open>/\(.*?\)/g\<close>; the dot does not match a line terminator.\<close>

definition re_paren :: "item list" where
  "re_paren =
     [ch (CHR ''(''), Item (\<lambda>c. c \<noteq> NL \<and> c \<noteq> CR) 0 None Lazy, ch (CHR '')'')]"

section \<open>Identity configuration and the self-email classifier\<close>

text \<open>
  The three lists are imported from \<open>config.ts\<close> (a copy of \<open>config.sample.ts\<close>); the
  classifier is modelled over any such configuration.
\<close>

record Config =
  ignoredSenders :: "string list"
  myEmails :: "string list"
  myNames :: "string list"

type_synonym headerMap = "string \<rightharpoonup> string"

record EmailData =
  e_subject :: string
  e_from :: string
  e_to :: string
  e_date :: string
  e_messageId :: string
  e_body :: string
  e_headers :: headerMap

definition extractEmail :: "string \<Rightarrow> string option" where
  "extractEmail field =
     (case search re_angle field of
        Some gs \<Rightarrow> Some (captured 1 1 gs)
      | None \<Rightarrow>
          (case search re_address field of
             Some gs \<Rightarrow> Some (captured 0 5 gs)
           | None \<Rightarrow> None))"

text \<open>\<^verbatim>\<open>.replace(/['"]/g, '')\<close>\<close>

definition stripQuotes :: "string \<Rightarrow> string" where
  "stripQuotes s = filter (\<lambda>c. c \<noteq> CHR 0x27 \<and> c \<noteq> CHR 0x22) s"

definition extractName :: "string \<Rightarrow> string option" where
  "extractName field =
     (case matchItems re_name field of
        Some (gs, r) \<Rightarrow> Some (stripQuotes (trim (captured 0 1 gs)))
      | None \<Rightarrow>
          if \<not> includes_str field ''@'' then Some (stripQuotes (trim field)) else None)"

definition extractEmails :: "string \<Rightarrow> string list" where
  "extractEmails field =
     List.map_filter (\<lambda>recipient. extractEmail (trim recipient)) (split_char (CHR '','') field)"

definition extractNames :: "string \<Rightarrow> string list" where
  "extractNames field =
     List.map_filter (\<lambda>recipient. extractName (trim recipient)) (split_char (CHR '','') field)"

text \<open>
  \<open>isSelfEmail\<close>. The random debug logging between the two checks has no effect on the
  result and is left out. \<open>fromName && ...\<close> is false for a missing and for an empty
  name; \<open>fromEmail?.\<close> is false for a missing address.
\<close>

definition isIgnoredSender :: "Config \<Rightarrow> EmailData \<Rightarrow> bool" where
  "isIgnoredSender cfg email =
     list_ex (\<lambda>sender.
        includes_str (toLowerCase (e_from email)) (toLowerCase sender) \<or>
        (case extractName (e_from email) of
           None \<Rightarrow> False
         | Some fromName \<Rightarrow>
             fromName \<noteq> [] \<and> includes_str (toLowerCase fromName) (toLowerCase sender)))
       (ignoredSenders cfg)"

definition isFromMe :: "Config \<Rightarrow> EmailData \<Rightarrow> bool" where
  "isFromMe cfg email =
     (list_ex (\<lambda>addr.
        case extractEmail (e_from email) of
          None \<Rightarrow> False
        | Some fromEmail \<Rightarrow> includes_str (toLowerCase fromEmail) (toLowerCase addr))
       (myEmails cfg) \<or>
      list_ex (\<lambda>name.
        case extractName (e_from email) of
          None \<Rightarrow> False
        | Some fromName \<Rightarrow> includes_str (toLowerCase fromName) (toLowerCase name))
       (myNames cfg))"

definition isToMe :: "Config \<Rightarrow> EmailData \<Rightarrow> bool" where
  "isToMe cfg email =
     (list_ex (\<lambda>addr.
        list_ex (\<lambda>myAddr. includes_str (toLowerCase addr) (toLowerCase myAddr)) (myEmails cfg))
       (extractEmails (e_to email)) \<or>
      list_ex (\<lambda>name.
        list_ex (\<lambda>myName. includes_str (toLowerCase name) (toLowerCase myName)) (myNames cfg))
       (extractNames (e_to email)))"

definition isSelfEmail :: "Config \<Rightarrow> EmailData \<Rightarrow> bool" where
  "isSelfEmail cfg email =
     (if isIgnoredSender cfg email then True
      else isFromMe cfg email \<and> isToMe cfg email)"

section \<open>Header words and bodies\<close>

text \<open>
  \<open>atob\<close>: the forgiving Base64 decoder of the platform. ASCII white space is removed;
  when the length is a multiple of four, one or two final padding characters are
  removed; a length of 1 modulo 4 or a character outside the alphabet is an error (the
  exception \<open>atob\<close> throws is the value \<open>None\<close>).
\<close>

definition b64val :: "char \<Rightarrow> nat option" where
  "b64val c = (let n = (of_char c :: nat) in
     if 65 \<le> n \<and> n \<le> 90 then Some (n - 65)
     else if 97 \<le> n \<and> n \<le> 122 then Some (n - 71)
     else if 48 \<le> n \<and> n \<le> 57 then Some (n + 4)
     else if c = CHR ''+'' then Some 62
     else if c = CHR ''/'' then Some 63
     else None)"

fun b64bytes :: "nat list \<Rightarrow> nat list" where
  "b64bytes (a # b # c # d # r) =
     (a * 4 + b div 16) # ((b mod 16) * 16 + c div 4) # ((c mod 4) * 64 + d) # b64bytes r"
| "b64bytes [a, b, c] = [a * 4 + b div 16, (b mod 16) * 16 + c div 4]"
| "b64bytes [a, b] = [a * 4 + b div 16]"
| "b64bytes r = []"

definition atob :: "string \<Rightarrow> string option" where
  "atob encoded =
     (let d0 = filter (\<lambda>c. c \<notin> set [TAB, NL, CHR 0x0C, CR, CHR '' '']) encoded;
          d = (if length d0 mod 4 = 0 then
                 (if startsWith (rev d0) ''=='' then take (length d0 - 2) d0
                  else if startsWith (rev d0) ''='' then take (length d0 - 1) d0
                  else d0)
               else d0)
      in if length d mod 4 = 1 then None
         else if list_ex (\<lambda>c. b64val c = None) d then None
         else Some (map char_of (b64bytes (List.map_filter b64val d))))"

text \<open>
  \<open>decodeHeader\<close>: every match of the encoded-word pattern is handed to \<open>atob\<close>,
  whatever its encoding letter; when \<open>atob\<close> throws, the \<open>catch\<close> returns the match.
\<close>

definition decodeWord :: "string list \<Rightarrow> string" where
  "decodeWord gs =
     (case atob (captured 6 1 gs) of
        Some decoded \<Rightarrow> decoded
      | None \<Rightarrow> concat gs)"

definition decodeWords :: "string \<Rightarrow> string" where
  "decodeWords v = replaceAll re_encoded decodeWord v"

definition decodeHeader :: "string \<Rightarrow> string" where
  "decodeHeader v = trim (decodeWords v)"

definition hexDigit :: "char \<Rightarrow> nat" where
  "hexDigit c = (let n = (of_char c :: nat) in if n \<le> 57 then n - 48 else n - 55)"

text \<open>\<open>String.fromCharCode(parseInt(hex, 16))\<close> for the two captured hex digits.\<close>

fun fromHex :: "string \<Rightarrow> string" where
  "fromHex [x, y] = [char_of (16 * hexDigit x + hexDigit y)]"
| "fromHex hex = []"

definition hexChar :: "string list \<Rightarrow> string" where
  "hexChar gs = fromHex (captured 1 1 gs)"

text \<open>The two \<open>replace\<close> passes of \<open>cleanBody\<close>, in the order of the source, then \<open>trim\<close>.\<close>

definition removeSoftBreaks :: "string \<Rightarrow> string" where
  "removeSoftBreaks body = replaceAll re_softbreak (\<lambda>gs. []) body"

definition decodeEscapes :: "string \<Rightarrow> string" where
  "decodeEscapes s = replaceAll re_hex hexChar s"

definition cleanBody :: "string \<Rightarrow> string" where
  "cleanBody body = trim (decodeEscapes (removeSoftBreaks body))"

section \<open>Header parsing\<close>

definition isContinuation :: "string \<Rightarrow> bool" where
  "isContinuation line = (startsWith line '' '' \<or> startsWith line [TAB])"

text \<open>
  \<open>headers[key] = value\<close> on the object literal \<open>{}\<close>. The script runs on Deno, whose
  objects inherit no \<open>__proto__\<close> setter, so the assignment stores an own property under
  every key, \<open>__proto__\<close> included.
\<close>

definition setHeader :: "headerMap \<Rightarrow> string \<Rightarrow> string \<Rightarrow> headerMap" where
  "setHeader headers key v = headers(key \<mapsto> v)"

text \<open>The state of the loop of \<open>parseHeaders\<close>: \<open>(headers, currentHeader, currentValue)\<close>.\<close>

type_synonym headerState = "headerMap \<times> string \<times> string"

definition saveCurrent :: "headerState \<Rightarrow> headerMap" where
  "saveCurrent st =
     (case st of (headers, currentHeader, currentValue) \<Rightarrow>
        if currentHeader \<noteq> [] then setHeader headers currentHeader (decodeHeader currentValue)
        else headers)"

fun parseHeaders_loop :: "string list \<Rightarrow> headerState \<Rightarrow> headerState" where
  "parseHeaders_loop [] st = st"
| "parseHeaders_loop (line # rest) (headers, currentHeader, currentValue) =
     (if isContinuation line
      then parseHeaders_loop rest (headers, currentHeader, currentValue @ '' '' @ trim line)
      else
        (let saved = saveCurrent (headers, currentHeader, currentValue);
             colonIndex = indexOf line '':''
         in if colonIndex > 0
            then parseHeaders_loop rest
                   (saved, trim (take (nat colonIndex) line), trim (drop (nat colonIndex + 1) line))
            else parseHeaders_loop rest (saved, currentHeader, currentValue)))"

definition parseHeaders_lines :: "string list \<Rightarrow> headerMap" where
  "parseHeaders_lines ls = saveCurrent (parseHeaders_loop ls (Map.empty, [], []))"

definition parseHeaders :: "string \<Rightarrow> headerMap" where
  "parseHeaders headerSection = parseHeaders_lines (split_char NL headerSection)"

section \<open>Assembling one message\<close>

text \<open>
  \<open>parseEmail\<close> returns \<open>null\<close> at two places; the model names them. Nothing inside its
  \<open>try\<close> block throws (\<open>atob\<close> is caught in \<open>decodeHeader\<close>), so the \<open>catch\<close> branch has
  no counterpart.
\<close>

datatype parseError = HeaderBoundaryFailure | RequiredFieldMissing

definition stripSeparator :: "string \<Rightarrow> string" where
  "stripSeparator block =
     (case split_char NL block of
        [] \<Rightarrow> block
      | l0 # ls \<Rightarrow>
          if l0 \<noteq> [] \<and> startsWith l0 ''From '' then drop (length l0 + 1) block else block)"

text \<open>The branches of the fallback scan over the lines of a block without a blank line.\<close>

datatype lineClass = Continuation | HeaderLine | EmptySeparator | BodyStart | Unclassified

definition classifyLine :: "nat \<Rightarrow> string \<Rightarrow> lineClass" where
  "classifyLine i line =
     (if startsWith line '' '' \<or> startsWith line [TAB] then Continuation
      else if includes_str line '':'' \<and> length line < 200 then HeaderLine
      else if trim line = [] then EmptySeparator
      else if i > 0 \<and> \<not> includes_str line '':'' then BodyStart
      else Unclassified)"

fun findHeaderEnd :: "string list \<Rightarrow> nat \<Rightarrow> int \<Rightarrow> int" where
  "findHeaderEnd [] i headerEndLine = headerEndLine"
| "findHeaderEnd (line # rest) i headerEndLine =
     (case classifyLine i line of
        Continuation \<Rightarrow> findHeaderEnd rest (i + 1) headerEndLine
      | HeaderLine \<Rightarrow> findHeaderEnd rest (i + 1) (int i)
      | EmptySeparator \<Rightarrow> int i
      | BodyStart \<Rightarrow> int i - 1
      | Unclassified \<Rightarrow> findHeaderEnd rest (i + 1) headerEndLine)"

text \<open>The header section and the cleaned body of a block's content.\<close>

definition splitHeaderBody :: "string \<Rightarrow> string \<times> string" where
  "splitHeaderBody content =
     (let doubleNewlineIndex = indexOf content [NL, NL] in
      if doubleNewlineIndex \<noteq> - 1
      then (take (nat doubleNewlineIndex) content,
            cleanBody (drop (nat doubleNewlineIndex + 2) content))
      else
        (let contentLines = split_char NL content;
             headerEndLine = findHeaderEnd contentLines 0 (- 1)
         in if headerEndLine \<ge> 0
            then (join [NL] (take (nat (headerEndLine + 1)) contentLines),
                  cleanBody (join [NL] (drop (nat (headerEndLine + 1)) contentLines)))
            else ((case contentLines of [] \<Rightarrow> [] | l # ls \<Rightarrow> l),
                  cleanBody (join [NL] (drop 1 contentLines)))))"

text \<open>\<open>a || b || dflt\<close> on header look-ups: a missing and an empty value are both falsy.\<close>

fun firstTruthy :: "string option list \<Rightarrow> string \<Rightarrow> string" where
  "firstTruthy [] dflt = dflt"
| "firstTruthy (None # vs) dflt = firstTruthy vs dflt"
| "firstTruthy (Some v # vs) dflt = (if v \<noteq> [] then v else firstTruthy vs dflt)"

definition parseEmail :: "string \<Rightarrow> parseError + EmailData" where
  "parseEmail block =
     (let content = stripSeparator block;
          headerSection = fst (splitHeaderBody content);
          body = snd (splitHeaderBody content)
      in if headerSection = [] then Inl HeaderBoundaryFailure
         else
           (let headers = parseHeaders headerSection;
                subject = firstTruthy [headers ''Subject'', headers ''subject''] ''(No Subject)'';
                from = firstTruthy [headers ''From'', headers ''from''] ''(No Sender)'';
                to = firstTruthy [headers ''To'', headers ''to''] ''(No Recipient)'';
                date = firstTruthy [headers ''Date'', headers ''date''] [];
                messageId = firstTruthy
                  [headers ''Message-ID'', headers ''Message-Id'', headers ''message-id''] []
            in if from = ''(No Sender)'' \<or> to = ''(No Recipient)''
               then Inl RequiredFieldMissing
               else Inr \<lparr>e_subject = subject, e_from = from, e_to = to, e_date = date,
                         e_messageId = messageId, e_body = body, e_headers = headers\<rparr>))"

section \<open>Splitting an archive\<close>



text \<open>
  \<open>parseContent\<close>, which the source keeps for backward compatibility and no longer calls:
  \<^verbatim>\<open>content.split(/\n(?=From )/)\<close>, where a newline that is followed by \<open>From \<close> separates
  two blocks and belongs to neither; each block is trimmed and an empty one skipped.
\<close>

fun splitDelim :: "string \<Rightarrow> string list" where
  "splitDelim [] = [[]]"
| "splitDelim (c # cs) =
     (if c = NL \<and> startsWith cs ''From '' then [] # splitDelim cs
      else (case splitDelim cs of [] \<Rightarrow> [[c]] | p # ps \<Rightarrow> (c # p) # ps))"

text \<open>The loop of \<open>parseContent\<close> with its two accumulators.\<close>

fun parseContent_loop ::
  "Config \<Rightarrow> string list \<Rightarrow> EmailData list \<times> nat \<Rightarrow> EmailData list \<times> nat" where
  "parseContent_loop cfg [] acc = acc"
| "parseContent_loop cfg (b # bs) (emails, skippedSelfEmails) =
     (let block = trim b in
      if block \<noteq> [] then
        (case parseEmail block of
           Inr email \<Rightarrow>
             if isSelfEmail cfg email
             then parseContent_loop cfg bs (emails, skippedSelfEmails + 1)
             else parseContent_loop cfg bs (emails @ [email], skippedSelfEmails)
         | Inl err \<Rightarrow> parseContent_loop cfg bs (emails, skippedSelfEmails))
      else parseContent_loop cfg bs (emails, skippedSelfEmails))"

definition parseContent :: "Config \<Rightarrow> string \<Rightarrow> EmailData list" where
  "parseContent cfg content = fst (parseContent_loop cfg (splitDelim content) ([], 0))"

section \<open>Dates\<close>

text \<open>
  \<open>new Date(s)\<close> is the platform's parser and is a parameter here: \<open>newDate s\<close> is the
  time value in milliseconds, or \<open>None\<close> for an invalid date (\<open>isNaN(date.getTime())\<close>).
  The constructor does not throw on a string.
\<close>

definition stripParens :: "string \<Rightarrow> string" where
  "stripParens dateStr = replaceAll re_paren (\<lambda>gs. []) dateStr"

definition cleanDateStr :: "string \<Rightarrow> string" where
  "cleanDateStr dateStr = trim (stripParens dateStr)"

definition parseDate :: "(string \<Rightarrow> int option) \<Rightarrow> string \<Rightarrow> int option" where
  "parseDate newDate dateStr =
     (if dateStr = [] then None
      else
        (case newDate dateStr of
           Some date \<Rightarrow> Some date
         | None \<Rightarrow>
             (case newDate (cleanDateStr dateStr) of
                Some altDate \<Rightarrow> Some altDate
              | None \<Rightarrow> None)))"

section \<open>Notions used to state the properties\<close>

text \<open>Why a block was dropped, or \<open>None\<close> when a record was produced.\<close>

definition dropReason :: "parseError + EmailData \<Rightarrow> parseError option" where
  "dropReason r = (case r of Inl err \<Rightarrow> Some err | Inr email \<Rightarrow> None)"

text \<open>The header-line test in the words of the specification.\<close>

definition colonInFirst200 :: "string \<Rightarrow> bool" where
  "colonInFirst200 line = (CHR '':'' \<in> set (take 200 line))"

definition startsWithWhitespace :: "string \<Rightarrow> bool" where
  "startsWithWhitespace line = (case line of [] \<Rightarrow> False | c # cs \<Rightarrow> isWhiteSpace c)"

text \<open>A line of 200 characters whose colon is its second character.\<close>

definition longColonLine :: string where
  "longColonLine = ''a:'' @ replicate 198 (CHR ''x'')"

text \<open>The date of the specification's example, and a date parser that accepts only its
  comment-free form.\<close>

definition exampleDate :: string where
  "exampleDate = ''Mon, 12 Jan 2023 15:30:45 +0000 (UTC)''"

definition exampleNewDate :: "string \<Rightarrow> int option" where
  "exampleNewDate s =
     (if s = ''Mon, 12 Jan 2023 15:30:45 +0000'' then Some 1673537445000 else None)"

text \<open>The header section \<open>parseEmail\<close> extracts from a block.\<close>

definition headerSectionOf :: "string \<Rightarrow> string" where
  "headerSectionOf block = fst (splitHeaderBody (stripSeparator block))"

text \<open>The configuration shipped as \<open>config.sample.ts\<close>.\<close>

definition sampleConfig :: Config where
  "sampleConfig =
     \<lparr>ignoredSenders =
        [''Cover Admin'', ''no-reply@crittercism.com'', ''Cover Receipts'',
         ''Mail Delivery Subsystem'', ''Receipts'', ''Cover'', ''reporting@velocityapp.com'',
         ''development@velocityapp.com''],
      myEmails =
        [''frank@hirefrank.com'', ''fcharris@gmail.com'', ''frank.harris@velocityapp.com''],
      myNames = [''Frank Harris'', ''Frank'']\<rparr>"

text \<open>A fragment is a case-insensitive substring of a field.\<close>

definition ciSubstring :: "string \<Rightarrow> string \<Rightarrow> bool" where
  "ciSubstring frag field = (\<exists>u v. toLowerCase field = u @ toLowerCase frag @ v)"

text \<open>The configuration and the messages of the specification's classification examples.\<close>

definition specConfig :: Config where
  "specConfig =
     \<lparr>ignoredSenders = [''Mail Delivery Subsystem''], myEmails = [''a@x.com''], myNames = []\<rparr>"

definition message :: "string \<Rightarrow> string \<Rightarrow> EmailData" where
  "message from to =
     \<lparr>e_subject = ''(No Subject)'', e_from = from, e_to = to, e_date = [], e_messageId = [],
      e_body = [], e_headers = Map.empty\<rparr>"






section \<open>Basic facts about strings\<close>

lemma startsWith_single: "startsWith s [x] = (case s of [] \<Rightarrow> False | c # cs \<Rightarrow> c = x)"
  by (cases s) (auto simp: startsWith_def)

lemma includes_str_single: "includes_str s [x] = (x \<in> set s)"
  by (induction s) (auto simp: startsWith_single)

lemma trim_empty_iff: "trim s = [] \<longleftrightarrow> (\<forall>c\<in>set s. isWhiteSpace c)"
proof
  assume "trim s = []"
  then have all: "\<forall>x\<in>set (dropWhile isWhiteSpace s). isWhiteSpace x"
    by (simp add: trim_def dropWhile_eq_Nil_conv)
  have "dropWhile isWhiteSpace s = []"
  proof (rule ccontr)
    assume ne: "dropWhile isWhiteSpace s \<noteq> []"
    then have "\<not> isWhiteSpace (hd (dropWhile isWhiteSpace s))"
      by (rule hd_dropWhile)
    moreover have "hd (dropWhile isWhiteSpace s) \<in> set (dropWhile isWhiteSpace s)"
      using ne by simp
    ultimately show False using all by blast
  qed
  then show "\<forall>c\<in>set s. isWhiteSpace c"
    by (simp add: dropWhile_eq_Nil_conv)
next
  assume "\<forall>c\<in>set s. isWhiteSpace c"
  then show "trim s = []"
    by (auto simp: trim_def dest: set_dropWhileD)
qed

section \<open>Facts about the matcher\<close>

lemma first_some_None: "(\<And>x. x \<in> set xs \<Longrightarrow> f x = None) \<Longrightarrow> first_some f xs = None"
  by (induction xs) auto

lemma first_some_append:
  "first_some f (xs @ ys) =
     (case first_some f xs of Some y \<Rightarrow> Some y | None \<Rightarrow> first_some f ys)"
  by (induction xs) (auto split: option.splits)

lemma first_some_skip:
  "(\<And>x. x \<in> set xs \<Longrightarrow> f x = None) \<Longrightarrow>
   first_some f (xs @ k # ys) = (case f k of Some y \<Rightarrow> Some y | None \<Rightarrow> first_some f ys)"
  by (simp add: first_some_append first_some_None)

lemma counts_one: "counts (Suc 0) (Some (Suc 0)) Greedy n = (if n = 0 then [] else [Suc 0])"
  by (simp add: counts_def)

lemma counts_opt: "counts 0 (Some (Suc 0)) Greedy n = (if n = 0 then [0] else [Suc 0, 0])"
  by (auto simp add: counts_def min_def)

lemma matchItems_ch_Nil: "matchItems (ch c # its) [] = None"
  by (simp add: ch_def counts_one)

lemma matchItems_ch_Cons:
  "matchItems (ch c # its) (x # xs) =
     (if x = c
      then (case matchItems its xs of None \<Rightarrow> None | Some (gs, r) \<Rightarrow> Some ([c] # gs, r))
      else None)"
  by (simp add: ch_def counts_one split: option.splits)

lemma matchItems_optional_Nil:
  "matchItems (optional c # its) [] =
     (case matchItems its [] of None \<Rightarrow> None | Some (gs, r) \<Rightarrow> Some ([] # gs, r))"
  by (simp add: optional_def counts_opt split: option.splits)

lemma matchItems_optional_Cons:
  "matchItems (optional c # its) (x # xs) =
     (if x = c then
        (case matchItems its xs of
           Some (gs, r) \<Rightarrow> Some ([c] # gs, r)
         | None \<Rightarrow>
             (case matchItems its (x # xs) of
                None \<Rightarrow> None
              | Some (gs, r) \<Rightarrow> Some ([] # gs, r)))
      else (case matchItems its (x # xs) of None \<Rightarrow> None | Some (gs, r) \<Rightarrow> Some ([] # gs, r)))"
  by (auto simp add: optional_def counts_opt split: option.splits)



lemma upt_split_at:
  "k \<le> n \<Longrightarrow> [0 ..< Suc n] = [0 ..< k] @ k # [Suc k ..< Suc n]"
proof -
  assume le: "k \<le> n"
  then obtain d where d: "Suc n = k + d"
    by (metis le_Suc_eq le_iff_add)
  have "[0 ..< k + d] = [0 ..< k] @ [k ..< k + d]"
    by (rule upt_add_eq_append) simp
  moreover have "[k ..< Suc n] = k # [Suc k ..< Suc n]"
    using le by (simp add: upt_conv_Cons)
  ultimately show ?thesis
    using d by simp
qed

text \<open>A lazy class stops at the first count after which the rest of the pattern matches.\<close>

lemma matchItems_lazy_run:
  assumes allP: "\<forall>x\<in>set u. P x"
    and fails: "\<forall>k<length u. matchItems its (drop k u @ rest) = None"
    and tail: "matchItems its rest = Some (gs, r)"
  shows "matchItems (Item P 0 None Lazy # its) (u @ rest) = Some (u # gs, r)"
proof -
  define f where "f = (\<lambda>k. case matchItems its (drop k (u @ rest)) of
               None \<Rightarrow> None
             | Some (gs, r) \<Rightarrow> Some (take k (u @ rest) # gs, r))"
  define n where "n = length (takeWhile P (u @ rest))"
  have len: "length u \<le> n"
    using allP by (simp add: n_def takeWhile_append2)
  have none: "\<And>k. k \<in> set [0 ..< length u] \<Longrightarrow> f k = None"
    using fails by (simp add: f_def)
  have at: "f (length u) = Some (u # gs, r)"
    by (simp add: f_def tail)
  have "first_some f [0 ..< Suc n] = Some (u # gs, r)"
    unfolding upt_split_at [OF len]
    using first_some_skip [of "[0 ..< length u]" f, OF none] at by simp
  then show ?thesis
    by (simp add: counts_def f_def n_def Let_def)
qed

text \<open>Text in which the pattern matches nowhere is copied; a match at the front is
  replaced and the scan goes on behind it.\<close>

lemma replaceAll_skip:
  assumes "\<forall>n<length pre. matchItems re (drop n pre @ rest) = None"
  shows "replaceAll re f (pre @ rest) = pre @ replaceAll re f rest"
  using assms
proof (induction pre)
  case Nil
  then show ?case by simp
next
  case (Cons c cs)
  have here: "matchItems re (c # cs @ rest) = None"
    using Cons.prems by (auto dest: spec [of _ 0])
  have later: "\<forall>n<length cs. matchItems re (drop n cs @ rest) = None"
  proof (intro allI impI)
    fix n assume "n < length cs"
    then have "matchItems re (drop (Suc n) (c # cs) @ rest) = None"
      using Cons.prems by (metis Suc_less_eq length_Cons)
    then show "matchItems re (drop n cs @ rest) = None" by simp
  qed
  show ?case
    using Cons.IH [OF later] here by simp
qed

lemma replaceAll_match:
  assumes "matchItems re (m @ post) = Some (gs, post)" and "m \<noteq> []"
  shows "replaceAll re f (m @ post) = f gs @ replaceAll re f post"
proof -
  obtain c cs where m: "m = c # cs"
    using assms(2) by (cases m) auto
  show ?thesis
    using assms(1) unfolding m by simp
qed

section \<open>The fallback boundary scan\<close>

lemma classify_header_index: "classifyLine i line = HeaderLine \<Longrightarrow> classifyLine j line = HeaderLine"
  by (simp add: classifyLine_def split: if_splits)

lemma findHeaderEnd_all_headers:
  assumes "\<forall>line\<in>set ls. classifyLine 0 line = HeaderLine" and "ls \<noteq> []"
  shows "findHeaderEnd ls i h = int (i + length ls) - 1"
  using assms
proof (induction ls arbitrary: i h)
  case Nil
  then show ?case by simp
next
  case (Cons line rest)
  have here: "classifyLine i line = HeaderLine"
    using Cons.prems(1) classify_header_index [of 0 line i] by simp
  show ?case
  proof (cases "rest = []")
    case True
    then show ?thesis using here by simp
  next
    case False
    then have "findHeaderEnd rest (i + 1) (int i) = int (i + 1 + length rest) - 1"
      using Cons.IH [of "i + 1" "int i"] Cons.prems(1) by simp
    then show ?thesis using here by simp
  qed
qed

text \<open>
  Claim C9, as amended. In the fallback scan a line is taken as a header line exactly when
  it starts with neither a space nor a tab, contains a colon, and is shorter than 200
  characters in total; the length test is on the whole line, not on the position of the
  colon. A header line moves the candidate end of the header section to its own index and
  the scan goes on; when every line is a header line the section ends at the last line.
\<close>

theorem C9_header_line_iff:
  "(classifyLine i line = HeaderLine \<longleftrightarrow>
     \<not> startsWith line '' '' \<and> \<not> startsWith line [TAB] \<and>
     CHR '':'' \<in> set line \<and> length line < 200) \<and>
   (classifyLine i line = HeaderLine \<longrightarrow>
     findHeaderEnd (line # rest) i h = findHeaderEnd rest (i + 1) (int i)) \<and>
   ((\<forall>l\<in>set ls. \<not> startsWith l '' '' \<and> \<not> startsWith l [TAB] \<and>
        CHR '':'' \<in> set l \<and> length l < 200) \<and> ls \<noteq> [] \<longrightarrow>
     findHeaderEnd ls 0 (- 1) = int (length ls) - 1)"
proof (intro conjI impI)
  show iff: "\<And>i line. classifyLine i line = HeaderLine \<longleftrightarrow>
     \<not> startsWith line '' '' \<and> \<not> startsWith line [TAB] \<and>
     CHR '':'' \<in> set line \<and> length line < 200"
    by (simp add: classifyLine_def includes_str_single)
  show "findHeaderEnd (line # rest) i h = findHeaderEnd rest (i + 1) (int i)"
    if "classifyLine i line = HeaderLine"
    using that by simp
  show "findHeaderEnd ls 0 (- 1) = int (length ls) - 1"
    if a: "(\<forall>l\<in>set ls. \<not> startsWith l '' '' \<and> \<not> startsWith l [TAB] \<and>
        CHR '':'' \<in> set l \<and> length l < 200) \<and> ls \<noteq> []"
  proof -
    have "\<forall>l\<in>set ls. classifyLine 0 l = HeaderLine"
      using a iff [of 0] by blast
    then show ?thesis
      using findHeaderEnd_all_headers [of ls 0 "- 1"] a by simp
  qed
qed

theorem C9_header_line_iff_witness:
  "classifyLine 0 ''Subject: hello'' = HeaderLine \<and>
   findHeaderEnd [''From: a@x.com'', ''To: b@x.com''] 0 (- 1) = 1"
proof -
  have a: "\<forall>l\<in>set [''From: a@x.com'', ''To: b@x.com'']. \<not> startsWith l '' '' \<and>
      \<not> startsWith l [TAB] \<and> CHR '':'' \<in> set l \<and> length l < 200"
    by (simp add: startsWith_def)
  have b: "\<not> startsWith ''Subject: hello'' '' '' \<and> \<not> startsWith ''Subject: hello'' [TAB] \<and>
     CHR '':'' \<in> set ''Subject: hello'' \<and> length ''Subject: hello'' < 200"
    by (simp add: startsWith_def)
  from C9_header_line_iff [of 0 "''Subject: hello''" "[]" 0 "[''From: a@x.com'', ''To: b@x.com'']"] a b
  show ?thesis
    by simp
qed

text \<open>
  The claim as written fails: a line of 200 characters that does not start with white
  space and has its colon at position 1 is not taken as a header line, and the header
  section of the two lines \<open>A: b\<close> and that line ends at line 0.
\<close>

theorem C9_counterexample:
  "\<not> startsWithWhitespace longColonLine \<and> colonInFirst200 longColonLine \<and>
   200 \<le> length longColonLine \<and> classifyLine 1 longColonLine \<noteq> HeaderLine \<and>
   findHeaderEnd [''A: b'', longColonLine] 0 (- 1) = 0"
  by (simp add: longColonLine_def startsWithWhitespace_def colonInFirst200_def isWhiteSpace_def
      classifyLine_def startsWith_def includes_str_single trim_empty_iff)

section \<open>Fields of a record\<close>

text \<open>
  Claim C5, as amended. The fields of a record are read from the header map under fixed
  spellings only: \<open>Subject\<close>/\<open>subject\<close>, \<open>From\<close>/\<open>from\<close>, \<open>To\<close>/\<open>to\<close>, \<open>Date\<close>/\<open>date\<close> and
  \<open>Message-ID\<close>/\<open>Message-Id\<close>/\<open>message-id\<close>, in this order, taking the first non-empty
  value and the placeholder otherwise.
\<close>

theorem C5_exact_spellings:
  assumes "parseEmail block = Inr email"
  shows "e_subject email =
           firstTruthy [e_headers email ''Subject'', e_headers email ''subject'']
             ''(No Subject)'' \<and>
         e_from email =
           firstTruthy [e_headers email ''From'', e_headers email ''from''] ''(No Sender)'' \<and>
         e_to email =
           firstTruthy [e_headers email ''To'', e_headers email ''to''] ''(No Recipient)'' \<and>
         e_date email = firstTruthy [e_headers email ''Date'', e_headers email ''date''] [] \<and>
         e_messageId email =
           firstTruthy [e_headers email ''Message-ID'', e_headers email ''Message-Id'',
                        e_headers email ''message-id''] []"
  using assms unfolding parseEmail_def Let_def
  by (auto split: if_splits)

theorem C5_exact_spellings_witness:
  "\<exists>email. parseEmail ''subject: hi\<newline>From: a@x.com\<newline>to: b@x.com\<newline>\<newline>body'' = Inr email \<and>
     e_subject email = ''hi'' \<and> e_from email = ''a@x.com'' \<and> e_to email = ''b@x.com'' \<and>
     e_date email = [] \<and> e_messageId email = []"
proof -
  let ?block = "''subject: hi\<newline>From: a@x.com\<newline>to: b@x.com\<newline>\<newline>body''"
  have "case parseEmail ?block of
          Inl err \<Rightarrow> False
        | Inr email \<Rightarrow>
            map (e_headers email)
              [''Subject'', ''subject'', ''From'', ''from'', ''To'', ''to'', ''Date'', ''date'',
               ''Message-ID'', ''Message-Id'', ''message-id'']
            = [None, Some ''hi'', Some ''a@x.com'', None, None, Some ''b@x.com'', None, None,
               None, None, None]"
    by code_simp
  then obtain email where eq: "parseEmail ?block = Inr email"
    and h: "map (e_headers email)
              [''Subject'', ''subject'', ''From'', ''from'', ''To'', ''to'', ''Date'', ''date'',
               ''Message-ID'', ''Message-Id'', ''message-id'']
            = [None, Some ''hi'', Some ''a@x.com'', None, None, Some ''b@x.com'', None, None,
               None, None, None]"
    by (cases "parseEmail ?block") auto
  from C5_exact_spellings [OF eq] h eq show ?thesis
    by simp
qed

text \<open>
  The claim as written fails: headers stored as \<open>FROM\<close> and \<open>TO\<close> are not found, and the
  block is dropped for missing required fields.
\<close>

theorem C5_counterexample:
  "parseHeaders ''FROM: a@x.com\<newline>TO: b@x.com'' ''FROM'' = Some ''a@x.com'' \<and>
   dropReason (parseEmail ''FROM: a@x.com\<newline>TO: b@x.com\<newline>\<newline>hi'') =
     Some RequiredFieldMissing"
  by code_simp

section \<open>Date normalisation\<close>

lemma matchItems_paren:
  assumes "CHR '')'' \<notin> set c" and "NL \<notin> set c" and "CR \<notin> set c"
  shows "matchItems re_paren (CHR ''('' # c @ CHR '')'' # v) = Some ([''('', c, '')''], v)"
proof -
  have allP: "\<forall>x\<in>set c. x \<noteq> NL \<and> x \<noteq> CR"
    using assms by auto
  have fails: "\<forall>k<length c. matchItems [ch (CHR '')'')] (drop k c @ CHR '')'' # v) = None"
  proof (intro allI impI)
    fix k assume k: "k < length c"
    then obtain x xs where d: "drop k c = x # xs"
      by (cases "drop k c") auto
    then have "x \<in> set c"
      by (metis in_set_dropD list.set_intros(1))
    then have "x \<noteq> CHR '')''" using assms(1) by auto
    then show "matchItems [ch (CHR '')'')] (drop k c @ CHR '')'' # v) = None"
      by (simp add: d matchItems_ch_Cons)
  qed
  have tail: "matchItems [ch (CHR '')'')] (CHR '')'' # v) = Some (['')''], v)"
    by (simp add: matchItems_ch_Cons)
  have "matchItems (Item (\<lambda>c. c \<noteq> NL \<and> c \<noteq> CR) 0 None Lazy # [ch (CHR '')'')])
          (c @ CHR '')'' # v) = Some (c # ['')''], v)"
    using allP fails tail by (rule matchItems_lazy_run)
  then show ?thesis
    by (simp add: re_paren_def matchItems_ch_Cons)
qed

lemma matchItems_paren_none: "x \<noteq> CHR ''('' \<Longrightarrow> matchItems re_paren (x # s) = None"
  by (simp add: re_paren_def matchItems_ch_Cons)

text \<open>A comment in parentheses, on one line, behind text without an opening parenthesis,
  is removed whole.\<close>

lemma stripParens_comment:
  assumes "CHR ''('' \<notin> set u" and "CHR '')'' \<notin> set c" and "NL \<notin> set c" and "CR \<notin> set c"
  shows "stripParens (u @ ''('' @ c @ '')'' @ v) = u @ stripParens v"
proof -
  have skip: "\<forall>n<length u. matchItems re_paren (drop n u @ (''('' @ c @ '')'' @ v)) = None"
  proof (intro allI impI)
    fix n assume "n < length u"
    then obtain x xs where d: "drop n u = x # xs"
      by (cases "drop n u") auto
    then have "x \<in> set u"
      by (metis in_set_dropD list.set_intros(1))
    then have "x \<noteq> CHR ''(''" using assms(1) by auto
    then show "matchItems re_paren (drop n u @ (''('' @ c @ '')'' @ v)) = None"
      by (simp add: d matchItems_paren_none)
  qed
  have m: "matchItems re_paren ((''('' @ c @ '')'') @ v) = Some ([''('', c, '')''], v)"
    using matchItems_paren [OF assms(2,3,4)] by simp
  have "replaceAll re_paren (\<lambda>gs. []) ((''('' @ c @ '')'') @ v) = replaceAll re_paren (\<lambda>gs. []) v"
    using replaceAll_match [OF m, of "\<lambda>gs. []"] by simp
  then show ?thesis
    unfolding stripParens_def
    using replaceAll_skip [OF skip, of "\<lambda>gs. []"] by simp
qed

lemma cleanDateStr_example: "cleanDateStr exampleDate = ''Mon, 12 Jan 2023 15:30:45 +0000''"
  unfolding exampleDate_def by code_simp

lemma cleanDateStr_empty: "cleanDateStr [] = []"
  by code_simp

text \<open>
  Claim C6. With the platform's date parser \<open>newDate\<close> (which rejects the empty string),
  \<open>parseDate\<close> returns the direct parse when it succeeds, otherwise the parse of the
  string with its parenthesised comments removed and trimmed, and the null result exactly
  when both fail (or the string is empty). It is a total function: no input makes it
  throw. A parenthesised comment is removed whole, and the example date with \<open>(UTC)\<close> is
  parsed whenever the parser accepts its comment-free form.
\<close>

theorem C6_parseDate:
  "(newDate [] = None \<longrightarrow>
      parseDate newDate dateStr =
        (case newDate dateStr of
           Some date \<Rightarrow> Some date
         | None \<Rightarrow> newDate (cleanDateStr dateStr))) \<and>
   (parseDate newDate dateStr = None \<longleftrightarrow>
      dateStr = [] \<or> (newDate dateStr = None \<and> newDate (cleanDateStr dateStr) = None)) \<and>
   (CHR ''('' \<notin> set u \<and> CHR '')'' \<notin> set c \<and> NL \<notin> set c \<and> CR \<notin> set c \<longrightarrow>
      cleanDateStr (u @ ''('' @ c @ '')'' @ v) = trim (u @ stripParens v)) \<and>
   cleanDateStr exampleDate = ''Mon, 12 Jan 2023 15:30:45 +0000'' \<and>
   (newDate ''Mon, 12 Jan 2023 15:30:45 +0000'' \<noteq> None \<longrightarrow>
      parseDate newDate exampleDate \<noteq> None)"
proof -
  have ne: "exampleDate \<noteq> []"
    by (simp add: exampleDate_def)
  have a: "newDate [] = None \<longrightarrow>
      parseDate newDate dateStr =
        (case newDate dateStr of
           Some date \<Rightarrow> Some date
         | None \<Rightarrow> newDate (cleanDateStr dateStr))"
    by (cases "dateStr = []") (auto simp: parseDate_def cleanDateStr_empty split: option.splits)
  have b: "parseDate newDate dateStr = None \<longleftrightarrow>
      dateStr = [] \<or> (newDate dateStr = None \<and> newDate (cleanDateStr dateStr) = None)"
    by (auto simp: parseDate_def split: option.splits)
  have c: "newDate ''Mon, 12 Jan 2023 15:30:45 +0000'' \<noteq> None \<longrightarrow>
      parseDate newDate exampleDate \<noteq> None"
    using ne by (auto simp: parseDate_def cleanDateStr_example split: option.splits)
  have d: "CHR ''('' \<notin> set u \<and> CHR '')'' \<notin> set c \<and> NL \<notin> set c \<and> CR \<notin> set c \<longrightarrow>
      cleanDateStr (u @ ''('' @ c @ '')'' @ v) = trim (u @ stripParens v)"
    unfolding cleanDateStr_def using stripParens_comment [of u c v] by simp
  from a b c d cleanDateStr_example show ?thesis by blast
qed

theorem C6_parseDate_witness:
  "parseDate exampleNewDate exampleDate = Some 1673537445000 \<and>
   cleanDateStr (''Mon '' @ ''('' @ ''UTC'' @ '')'' @ '' x'') = trim (''Mon '' @ stripParens '' x'')"
proof -
  have e: "exampleNewDate [] = None"
    by (simp add: exampleNewDate_def)
  have d: "exampleNewDate exampleDate = None"
    by (simp add: exampleNewDate_def exampleDate_def)
  have ok: "exampleNewDate ''Mon, 12 Jan 2023 15:30:45 +0000'' = Some 1673537445000"
    by (simp add: exampleNewDate_def)
  from C6_parseDate [of exampleNewDate exampleDate "''Mon ''" "''UTC''" "'' x''"] e d ok
  show ?thesis
    by simp
qed

section \<open>Keys of the header map\<close>

lemma indexOf_single:
  "indexOf s [x] = (if x \<in> set s then int (length (takeWhile (\<lambda>c. c \<noteq> x) s)) else - 1)"
  by (induction s) (auto simp: startsWith_single Let_def)

lemma indexOf_single_split:
  assumes "0 < indexOf line [x]"
  shows "\<exists>name rest. line = name @ [x] @ rest \<and> x \<notin> set name \<and> name \<noteq> [] \<and>
           take (nat (indexOf line [x])) line = name \<and>
           drop (nat (indexOf line [x]) + 1) line = rest"
proof -
  let ?name = "takeWhile (\<lambda>c. c \<noteq> x) line"
  have mem: "x \<in> set line"
    using assms by (auto simp: indexOf_single split: if_splits)
  have idx: "indexOf line [x] = int (length ?name)"
    using mem by (simp add: indexOf_single)
  have dw: "dropWhile (\<lambda>c. c \<noteq> x) line \<noteq> []"
    using mem by (simp add: dropWhile_eq_Nil_conv) 
  then obtain rest where rest: "dropWhile (\<lambda>c. c \<noteq> x) line = x # rest"
    using hd_dropWhile [of "\<lambda>c. c \<noteq> x" line] by (cases "dropWhile (\<lambda>c. c \<noteq> x) line") auto
  have line: "line = ?name @ [x] @ rest"
    using takeWhile_dropWhile_id [of "\<lambda>c. c \<noteq> x" line] rest by simp
  have notin: "x \<notin> set ?name"
    by (auto dest: set_takeWhileD)
  have ne: "?name \<noteq> []"
    using assms idx by auto
  have tk: "take (length ?name) line = ?name"
    by (subst line) simp
  have dr: "drop (length ?name + 1) line = rest"
    by (subst line) simp
  show ?thesis
    using line notin ne tk dr idx by auto
qed

lemma dom_setHeader: "dom (setHeader h k v) \<subseteq> insert k (dom h)"
  by (auto simp: setHeader_def)

lemma dom_saveCurrent:
  "key \<in> dom (saveCurrent (h, cur, cv)) \<Longrightarrow> key \<in> dom h \<or> (cur \<noteq> [] \<and> key = cur)"
  using dom_setHeader [of h cur "decodeHeader cv"]
  by (auto simp: saveCurrent_def split: if_splits)

lemma parseHeaders_loop_keys:
  assumes "parseHeaders_loop ls (h, cur, cv) = (h', cur', cv')"
    and "\<forall>k\<in>dom h. Q k"
    and "cur \<noteq> [] \<longrightarrow> Q cur"
    and "\<forall>line\<in>set ls. \<not> isContinuation line \<and> 0 < indexOf line '':'' \<and>
           trim (take (nat (indexOf line '':'')) line) \<noteq> [] \<longrightarrow>
           Q (trim (take (nat (indexOf line '':'')) line))"
  shows "(\<forall>k\<in>dom h'. Q k) \<and> (cur' \<noteq> [] \<longrightarrow> Q cur')"
  using assms
proof (induction ls arbitrary: h cur cv)
  case Nil
  then show ?case by simp
next
  case (Cons line rest)
  show ?case
  proof (cases "isContinuation line")
    case True
    with Cons.prems(1) have "parseHeaders_loop rest (h, cur, cv @ '' '' @ trim line) = (h', cur', cv')"
      by simp
    from Cons.IH [OF this Cons.prems(2) Cons.prems(3)] Cons.prems(4) show ?thesis by simp
  next
    case False
    let ?saved = "saveCurrent (h, cur, cv)"
    have saved: "\<forall>k\<in>dom ?saved. Q k"
      using dom_saveCurrent [of _ h cur cv] Cons.prems(2,3) by blast
    show ?thesis
    proof (cases "0 < indexOf line '':''")
      case True
      let ?key = "trim (take (nat (indexOf line '':'')) line)"
      have step: "parseHeaders_loop rest
           (?saved, ?key, trim (drop (nat (indexOf line '':'') + 1) line)) = (h', cur', cv')"
        using Cons.prems(1) False True by (simp add: Let_def)
      have q: "?key \<noteq> [] \<longrightarrow> Q ?key"
        using Cons.prems(4) False True by simp
      from Cons.IH [OF step saved q] Cons.prems(4) show ?thesis by simp
    next
      case nocolon: False
      have step: "parseHeaders_loop rest (?saved, cur, cv) = (h', cur', cv')"
        using Cons.prems(1) False nocolon by (simp add: Let_def)
      from Cons.IH [OF step saved Cons.prems(3)] Cons.prems(4) show ?thesis by simp
    qed
  qed
qed

lemma parseHeaders_lines_keys:
  assumes "key \<in> dom (parseHeaders_lines ls)"
  shows "key \<noteq> [] \<and> (\<exists>line\<in>set ls. \<not> isContinuation line \<and> 0 < indexOf line '':'' \<and>
           key = trim (take (nat (indexOf line '':'')) line))"
proof -
  define Q where "Q = (\<lambda>k. k \<noteq> [] \<and> (\<exists>line\<in>set ls. \<not> isContinuation line \<and>
           0 < indexOf line '':'' \<and> k = trim (take (nat (indexOf line '':'')) line)))"
  obtain h' cur' cv' where loop: "parseHeaders_loop ls (Map.empty, [], []) = (h', cur', cv')"
    by (cases "parseHeaders_loop ls (Map.empty, [], [])") auto
  have inv: "(\<forall>k\<in>dom h'. Q k) \<and> (cur' \<noteq> [] \<longrightarrow> Q cur')"
    by (rule parseHeaders_loop_keys [OF loop]) (auto simp: Q_def)
  have "key \<in> dom (saveCurrent (h', cur', cv'))"
    using assms loop by (simp add: parseHeaders_lines_def)
  then have "Q key"
    using dom_saveCurrent [of key h' cur' cv'] inv by blast
  then show ?thesis
    by (simp add: Q_def)
qed

lemma saveCurrent_no_header: "saveCurrent (h, [], cv) = h"
  by (simp add: saveCurrent_def)

lemma parseHeaders_loop_value_irrelevant:
  "saveCurrent (parseHeaders_loop ls (h, [], cv)) = saveCurrent (parseHeaders_loop ls (h, [], cv'))"
proof (induction ls arbitrary: cv cv')
  case Nil
  then show ?case by (simp add: saveCurrent_no_header)
next
  case (Cons line rest)
  show ?case
  proof (cases "isContinuation line")
    case True
    then show ?thesis using Cons.IH by simp
  next
    case False
    then show ?thesis using Cons.IH by (simp add: Let_def saveCurrent_no_header)
  qed
qed

lemma parseHeaders_loop_prefix:
  assumes "\<forall>line\<in>set pre. isContinuation line \<or> indexOf line '':'' \<le> 0"
  shows "\<exists>cv'. parseHeaders_loop (pre @ ls) (h, [], cv) = parseHeaders_loop ls (h, [], cv')"
  using assms
proof (induction pre arbitrary: cv)
  case Nil
  then show ?case by auto
next
  case (Cons line rest)
  then show ?case
    by (cases "isContinuation line") (auto simp: Let_def saveCurrent_no_header)
qed

lemma parseHeaders_lines_prefix:
  assumes "\<forall>line\<in>set pre. isContinuation line \<or> indexOf line '':'' \<le> 0"
  shows "parseHeaders_lines (pre @ ls) = parseHeaders_lines ls"
proof -
  obtain cv' where "parseHeaders_loop (pre @ ls) (Map.empty, [], []) = parseHeaders_loop ls (Map.empty, [], cv')"
    using parseHeaders_loop_prefix [OF assms] by blast
  then show ?thesis
    unfolding parseHeaders_lines_def
    using parseHeaders_loop_value_irrelevant [of ls Map.empty cv' "[]"] by simp
qed

lemma split_char_join:
  assumes "\<forall>l\<in>set ls. d \<notin> set l" and "ls \<noteq> []"
  shows "split_char d (join [d] ls) = ls"
  using assms
proof (induction "[d]" ls rule: join.induct)
  case 1
  then show ?case by simp
next
  case (2 x)
  then show ?case by (induction x) (auto split: list.splits)
next
  case (3 x y ys)
  have tl: "split_char d (join [d] (y # ys)) = y # ys"
    using 3 by simp
  have "d \<notin> set x" using 3 by simp
  then have "split_char d (x @ d # join [d] (y # ys)) = x # split_char d (join [d] (y # ys))"
    by (induction x) (auto split: list.splits)
  then show ?case using tl by simp
qed

text \<open>
  Claim C10. Every key of the parsed header map is non-empty and is the trimmed text before
  the first colon of a line of the header section that is not a continuation line and has
  that colon at a position greater than zero. Lines in front of the first header line that
  are continuation lines (or have no colon past position zero) leave no trace: the map is
  the one obtained without them.
\<close>

theorem C10_header_keys:
  "(key \<in> dom (parseHeaders headerSection) \<longrightarrow>
      key \<noteq> [] \<and>
      (\<exists>line\<in>set (split_char NL headerSection). \<exists>name rest.
          \<not> isContinuation line \<and> line = name @ '':'' @ rest \<and> CHR '':'' \<notin> set name \<and>
          name \<noteq> [] \<and> key = trim name)) \<and>
   ((\<forall>line\<in>set (pre @ ls). NL \<notin> set line) \<and> ls \<noteq> [] \<and>
    (\<forall>line\<in>set pre. isContinuation line \<or> indexOf line '':'' \<le> 0) \<longrightarrow>
      parseHeaders (join [NL] (pre @ ls)) = parseHeaders (join [NL] ls))"
proof (intro conjI impI)
  assume "key \<in> dom (parseHeaders headerSection)"
  then have k: "key \<in> dom (parseHeaders_lines (split_char NL headerSection))"
    by (simp add: parseHeaders_def)
  note keys = parseHeaders_lines_keys [OF k]
  from keys show "key \<noteq> []" ..
  from keys have "\<exists>line\<in>set (split_char NL headerSection). \<not> isContinuation line \<and>
      0 < indexOf line '':'' \<and> key = trim (take (nat (indexOf line '':'')) line)" ..
  then obtain line where mem: "line \<in> set (split_char NL headerSection)"
    and props: "\<not> isContinuation line \<and>
      0 < indexOf line '':'' \<and> key = trim (take (nat (indexOf line '':'')) line)" ..
  from props have pos: "0 < indexOf line '':''" by (elim conjE)
  from indexOf_single_split [OF pos] obtain name rest where
    l1: "line = name @ '':'' @ rest" and l2: "CHR '':'' \<notin> set name" and l3: "name \<noteq> []"
    and l4: "take (nat (indexOf line '':'')) line = name"
    by (elim exE conjE)
  from props have "key = trim (take (nat (indexOf line '':'')) line)"
    by (elim conjE)
  then have keq: "key = trim name"
    by (simp only: l4)
  from props have nc: "\<not> isContinuation line"
    by (elim conjE)
  have body: "\<not> isContinuation line \<and> line = name @ '':'' @ rest \<and>
      CHR '':'' \<notin> set name \<and> name \<noteq> [] \<and> key = trim name"
    using nc l1 l2 l3 keq by (intro conjI)
  show "\<exists>line\<in>set (split_char NL headerSection). \<exists>name rest.
          \<not> isContinuation line \<and> line = name @ '':'' @ rest \<and> CHR '':'' \<notin> set name \<and>
          name \<noteq> [] \<and> key = trim name"
    by (rule bexI [OF _ mem], rule exI [of _ name], rule exI [of _ rest]) (rule body)
next
  assume a: "(\<forall>line\<in>set (pre @ ls). NL \<notin> set line) \<and> ls \<noteq> [] \<and>
    (\<forall>line\<in>set pre. isContinuation line \<or> indexOf line '':'' \<le> 0)"
  then have nl: "\<forall>line\<in>set (pre @ ls). NL \<notin> set line" and ne: "ls \<noteq> []"
    and pr: "\<forall>line\<in>set pre. isContinuation line \<or> indexOf line '':'' \<le> 0"
    by simp_all
  from ne have ne': "pre @ ls \<noteq> []"
    by simp
  have s1: "split_char NL (join [NL] (pre @ ls)) = pre @ ls"
    using nl ne' by (rule split_char_join)
  from nl have nl2: "\<forall>line\<in>set ls. NL \<notin> set line"
    by simp
  have s2: "split_char NL (join [NL] ls) = ls"
    using nl2 ne by (rule split_char_join)
  have "parseHeaders_lines (pre @ ls) = parseHeaders_lines ls"
    using pr by (rule parseHeaders_lines_prefix)
  then show "parseHeaders (join [NL] (pre @ ls)) = parseHeaders (join [NL] ls)"
    by (simp add: parseHeaders_def s1 s2)
qed

theorem C10_header_keys_witness:
  "(\<exists>line\<in>set (split_char NL '' lead\<newline>A: b''). \<exists>name rest.
          \<not> isContinuation line \<and> line = name @ '':'' @ rest \<and> CHR '':'' \<notin> set name \<and>
          name \<noteq> [] \<and> ''A'' = trim name) \<and>
   parseHeaders (join [NL] (['' lead'', ''junk''] @ [''A: b''])) = parseHeaders (join [NL] [''A: b''])"
proof -
  have "parseHeaders '' lead\<newline>A: b'' ''A'' = Some ''b''"
    by code_simp
  then have d: "''A'' \<in> dom (parseHeaders '' lead\<newline>A: b'')"
    by blast
  have c: "isContinuation '' lead''"
    by (simp add: isContinuation_def startsWith_def)
  have j: "indexOf ''junk'' '':'' \<le> 0"
    by (simp add: startsWith_def)
  from C10_header_keys [of "''A''" "'' lead\<newline>A: b''" "['' lead'', ''junk'']" "[''A: b'']"] d c j
  show ?thesis
    by simp
qed

section \<open>Dropped blocks\<close>

lemma set_trim: "set (trim s) \<subseteq> set s"
proof -
  have "set (dropWhile isWhiteSpace (rev (dropWhile isWhiteSpace s))) \<subseteq> set (rev (dropWhile isWhiteSpace s))"
    by (rule set_dropWhileD [THEN subsetI])
  also have "\<dots> \<subseteq> set s"
    by (auto dest: set_dropWhileD)
  finally show ?thesis by (simp add: trim_def)
qed

lemma set_split_char: "l \<in> set (split_char d s) \<Longrightarrow> set l \<subseteq> set s"
proof (induction s arbitrary: l)
  case Nil
  then show ?case by simp
next
  case (Cons c cs)
  show ?case
  proof (cases "c = d")
    case True
    with Cons show ?thesis by auto
  next
    case False
    obtain p ps where sp: "split_char d cs = p # ps"
      by (cases "split_char d cs") (auto, cases cs, auto split: if_splits list.splits)
    with Cons.prems False have "l = c # p \<or> l \<in> set ps" by auto
    then show ?thesis
      using Cons.IH [of p] Cons.IH [of l] sp by auto
  qed
qed

lemma set_join: "x \<in> set (join sep ls) \<Longrightarrow> x \<in> set sep \<or> (\<exists>l\<in>set ls. x \<in> set l)"
  by (induction sep ls rule: join.induct) auto

lemma set_headerSection: 
  assumes "x \<in> set (fst (splitHeaderBody content))" and "x \<noteq> NL"
  shows "x \<in> set content"
proof -
  have lines: "\<And>l. l \<in> set (split_char NL content) \<Longrightarrow> set l \<subseteq> set content"
    by (rule set_split_char)
  have j: "\<And>k. x \<in> set (join [NL] (take k (split_char NL content))) \<Longrightarrow> x \<in> set content"
  proof -
    fix k assume "x \<in> set (join [NL] (take k (split_char NL content)))"
    from set_join [OF this] assms(2) obtain l where "l \<in> set (take k (split_char NL content))" "x \<in> set l"
      by auto
    then show "x \<in> set content"
      using lines [of l] by (auto dest: in_set_takeD)
  qed
  have first: "\<And>l ls. l # ls = split_char NL content \<Longrightarrow> x \<in> set l \<Longrightarrow> x \<in> set content"
    using lines by (metis list.set_intros(1) subsetD)
  show ?thesis
    using assms(1) j first
    by (auto simp: splitHeaderBody_def Let_def split: if_splits list.splits dest: in_set_takeD)
qed

lemma parseHeaders_no_colon:
  assumes "CHR '':'' \<notin> set hs"
  shows "parseHeaders hs = Map.empty"
proof -
  have "dom (parseHeaders_lines (split_char NL hs)) = {}"
  proof (rule ccontr)
    assume "dom (parseHeaders_lines (split_char NL hs)) \<noteq> {}"
    then obtain key where "key \<in> dom (parseHeaders_lines (split_char NL hs))"
      by blast
    from parseHeaders_lines_keys [OF this] obtain line where
      "line \<in> set (split_char NL hs)" "0 < indexOf line '':''"
      by blast
    then have "CHR '':'' \<in> set line" "set line \<subseteq> set hs"
      using set_split_char [of line NL hs] by (auto simp: indexOf_single split: if_splits)
    with assms show False by auto
  qed
  then show ?thesis
    by (simp add: parseHeaders_def)
qed

lemma parseEmail_no_colon:
  assumes "CHR '':'' \<notin> set (stripSeparator block)"
  shows "parseEmail block =
           Inl (if headerSectionOf block = [] then HeaderBoundaryFailure else RequiredFieldMissing)"
proof -
  have "CHR '':'' \<notin> set (fst (splitHeaderBody (stripSeparator block)))"
    using assms set_headerSection [of "CHR '':''" "stripSeparator block"] by auto
  then have "parseHeaders (fst (splitHeaderBody (stripSeparator block))) = Map.empty"
    by (rule parseHeaders_no_colon)
  then show ?thesis
    by (simp add: parseEmail_def headerSectionOf_def Let_def)
qed

lemma parseContent_loop_drop:
  assumes "trim b = [] \<or> (\<exists>err. parseEmail (trim b) = Inl err)"
  shows "parseContent_loop cfg (bs1 @ b # bs2) acc = parseContent_loop cfg (bs1 @ bs2) acc"
proof (induction bs1 arbitrary: acc)
  case Nil
  obtain emails n where acc: "acc = (emails, n)" by (cases acc)
  show ?case using assms by (auto simp: acc Let_def)
next
  case (Cons a bs1)
  obtain emails n where acc: "acc = (emails, n)" by (cases acc)
  show ?case
    using Cons.IH by (auto simp: acc Let_def split: sum.splits)
qed

lemma firstTruthy_cases:
  "firstTruthy vs d = d \<or> (Some (firstTruthy vs d) \<in> set vs \<and> firstTruthy vs d \<noteq> [])"
  by (induction vs d rule: firstTruthy.induct) auto

text \<open>
  Claim C3, as amended. A block whose content (what follows the delimiter line) contains no
  colon, with or without a blank line, never yields a record. Its first line or lines are
  still taken as the header section; no header is parsed from them, so the block is
  dropped for its missing required fields, and as a header boundary failure only when the
  extracted header section is empty. The loop of \<open>parseContent\<close> goes on with both of its
  accumulators unchanged: the code keeps no count of parse failures.
\<close>

theorem C3_no_colon_dropped:
  "(CHR '':'' \<notin> set (stripSeparator block) \<longrightarrow>
      parseEmail block =
        Inl (if headerSectionOf block = [] then HeaderBoundaryFailure
             else RequiredFieldMissing)) \<and>
   (CHR '':'' \<notin> set (stripSeparator (trim block)) \<longrightarrow>
      parseContent_loop cfg (block # bs) acc = parseContent_loop cfg bs acc)"
proof (intro conjI impI)
  assume "CHR '':'' \<notin> set (stripSeparator block)"
  then show "parseEmail block =
        Inl (if headerSectionOf block = [] then HeaderBoundaryFailure
             else RequiredFieldMissing)"
    by (rule parseEmail_no_colon)
next
  assume "CHR '':'' \<notin> set (stripSeparator (trim block))"
  then have "\<exists>err. parseEmail (trim block) = Inl err"
    using parseEmail_no_colon [of "trim block"] by simp
  then have "parseContent_loop cfg ([] @ block # bs) acc = parseContent_loop cfg ([] @ bs) acc"
    by (intro parseContent_loop_drop) simp
  then show "parseContent_loop cfg (block # bs) acc = parseContent_loop cfg bs acc"
    by simp
qed

theorem C3_no_colon_dropped_witness:
  "parseEmail ''From x 12:00\<newline>hello\<newline>world'' = Inl RequiredFieldMissing \<and>
   parseContent_loop sampleConfig [''From x 12:00\<newline>hello\<newline>world\<newline>''] ([], 0) = ([], 0)"
proof -
  have hs: "headerSectionOf ''From x 12:00\<newline>hello\<newline>world'' = ''hello''"
    by code_simp
  have nc: "CHR '':'' \<notin> set (stripSeparator ''From x 12:00\<newline>hello\<newline>world'')"
    by code_simp
  have nt: "CHR '':'' \<notin> set (stripSeparator (trim ''From x 12:00\<newline>hello\<newline>world\<newline>''))"
    by code_simp
  have one: "parseEmail ''From x 12:00\<newline>hello\<newline>world'' = Inl RequiredFieldMissing"
    using C3_no_colon_dropped [of "''From x 12:00\<newline>hello\<newline>world''"] nc hs by simp
  have two: "parseContent_loop sampleConfig [''From x 12:00\<newline>hello\<newline>world\<newline>''] ([], 0) = ([], 0)"
    using C3_no_colon_dropped
      [of "''From x 12:00\<newline>hello\<newline>world\<newline>''" sampleConfig "[]" "([], 0)"] nt
    by simp
  from one two show ?thesis
    by (rule conjI)
qed

text \<open>
  The claim as written fails: for the block \<open>hello\<close>, \<open>world\<close> (no blank line, no colon) the
  first line is treated as the header section and the drop is not a header boundary
  failure.
\<close>

theorem C3_counterexample:
  "CHR '':'' \<notin> set ''hello\<newline>world'' \<and>
   indexOf ''hello\<newline>world'' [NL, NL] = - 1 \<and>
   headerSectionOf ''hello\<newline>world'' = ''hello'' \<and>
   dropReason (parseEmail ''hello\<newline>world'') = Some RequiredFieldMissing \<and>
   dropReason (parseEmail ''hello\<newline>world'') \<noteq> Some HeaderBoundaryFailure"
  by code_simp

text \<open>
  Claim C4. A record is produced only when a non-empty \<open>From\<close>/\<open>from\<close> value and a non-empty
  \<open>To\<close>/\<open>to\<close> value were found in the headers of the block, neither being the placeholder;
  when either field resolves to its placeholder no record is returned; and a block for
  which \<open>parseEmail\<close> returns no record does not change what the loop does with the blocks
  before and after it.
\<close>

theorem C4_required_fields:
  "(parseEmail block = Inr email \<longrightarrow>
      e_from email \<noteq> [] \<and> e_to email \<noteq> [] \<and>
      e_from email \<noteq> ''(No Sender)'' \<and> e_to email \<noteq> ''(No Recipient)'' \<and>
      (parseHeaders (headerSectionOf block) ''From'' = Some (e_from email) \<or>
       parseHeaders (headerSectionOf block) ''from'' = Some (e_from email)) \<and>
      (parseHeaders (headerSectionOf block) ''To'' = Some (e_to email) \<or>
       parseHeaders (headerSectionOf block) ''to'' = Some (e_to email))) \<and>
   (firstTruthy [parseHeaders (headerSectionOf block) ''From'',
                 parseHeaders (headerSectionOf block) ''from''] ''(No Sender)'' = ''(No Sender)'' \<or>
    firstTruthy [parseHeaders (headerSectionOf block) ''To'',
                 parseHeaders (headerSectionOf block) ''to''] ''(No Recipient)'' = ''(No Recipient)''
      \<longrightarrow> (\<exists>err. parseEmail block = Inl err)) \<and>
   ((\<exists>err. parseEmail (trim b) = Inl err) \<longrightarrow>
      parseContent_loop cfg (bs1 @ b # bs2) acc = parseContent_loop cfg (bs1 @ bs2) acc)"
proof (intro conjI impI)
  let ?h = "parseHeaders (headerSectionOf block)"
  let ?from = "firstTruthy [?h ''From'', ?h ''from''] ''(No Sender)''"
  let ?to = "firstTruthy [?h ''To'', ?h ''to''] ''(No Recipient)''"
  assume ok: "parseEmail block = Inr email"
  then have f: "e_from email = ?from" and t: "e_to email = ?to"
    and nf: "?from \<noteq> ''(No Sender)''" and nt: "?to \<noteq> ''(No Recipient)''"
    unfolding parseEmail_def headerSectionOf_def Let_def by (auto split: if_splits)
  from firstTruthy_cases [of "[?h ''From'', ?h ''from'']" "''(No Sender)''"] nf
  have f': "Some ?from \<in> set [?h ''From'', ?h ''from''] \<and> ?from \<noteq> []"
    by blast
  from firstTruthy_cases [of "[?h ''To'', ?h ''to'']" "''(No Recipient)''"] nt
  have t': "Some ?to \<in> set [?h ''To'', ?h ''to''] \<and> ?to \<noteq> []"
    by blast
  show "e_from email \<noteq> []" using f f' by simp
  show "e_to email \<noteq> []" using t t' by simp
  show "e_from email \<noteq> ''(No Sender)''" using f nf by simp
  show "e_to email \<noteq> ''(No Recipient)''" using t nt by simp
  show "?h ''From'' = Some (e_from email) \<or> ?h ''from'' = Some (e_from email)"
    using f f' by auto
  show "?h ''To'' = Some (e_to email) \<or> ?h ''to'' = Some (e_to email)"
    using t t' by auto
next
  let ?h = "parseHeaders (headerSectionOf block)"
  assume "firstTruthy [?h ''From'', ?h ''from''] ''(No Sender)'' = ''(No Sender)'' \<or>
    firstTruthy [?h ''To'', ?h ''to''] ''(No Recipient)'' = ''(No Recipient)''"
  then show "\<exists>err. parseEmail block = Inl err"
    unfolding parseEmail_def headerSectionOf_def Let_def by (auto split: if_splits)
next
  assume "\<exists>err. parseEmail (trim b) = Inl err"
  then show "parseContent_loop cfg (bs1 @ b # bs2) acc = parseContent_loop cfg (bs1 @ bs2) acc"
    by (intro parseContent_loop_drop) simp
qed

theorem C4_required_fields_witness:
  "(\<exists>email. parseEmail ''From: a@x.com\<newline>To: b@x.com\<newline>\<newline>hi'' = Inr email \<and>
      e_from email = ''a@x.com'' \<and> e_to email = ''b@x.com'') \<and>
   (\<exists>err. parseEmail ''From: a@x.com\<newline>\<newline>hi'' = Inl err) \<and>
   parseContent_loop sampleConfig ([''x''] @ ''From: a@x.com\<newline>\<newline>hi'' # [''y'']) ([], 0) =
     parseContent_loop sampleConfig ([''x''] @ [''y'']) ([], 0)"
proof -
  let ?good = "''From: a@x.com\<newline>To: b@x.com\<newline>\<newline>hi''"
  let ?bad = "''From: a@x.com\<newline>\<newline>hi''"
  have "\<not> isl (parseEmail ?good)"
    by code_simp
  then obtain email where ok: "parseEmail ?good = Inr email"
    by (cases "parseEmail ?good") auto
  have hg: "map (parseHeaders (headerSectionOf ?good)) [''From'', ''from'', ''To'', ''to''] =
      [Some ''a@x.com'', None, Some ''b@x.com'', None]"
    by code_simp
  have good: "e_from email = ''a@x.com'' \<and> e_to email = ''b@x.com''"
    using C4_required_fields [of ?good email] ok hg by auto
  have hb: "firstTruthy [parseHeaders (headerSectionOf ?bad) ''To'',
                 parseHeaders (headerSectionOf ?bad) ''to''] ''(No Recipient)'' = ''(No Recipient)''"
    by code_simp
  have bad: "\<exists>err. parseEmail ?bad = Inl err"
    using C4_required_fields [of ?bad] hb by blast
  have tr: "trim ?bad = ?bad"
    by code_simp
  have loop: "parseContent_loop sampleConfig ([''x''] @ ?bad # [''y'']) ([], 0) =
     parseContent_loop sampleConfig ([''x''] @ [''y'']) ([], 0)"
    using C4_required_fields [of _ _ ?bad sampleConfig "[''x'']" "[''y'']" "([], 0)"] bad tr
    by simp
  from ok good bad loop show ?thesis
    by blast
qed

section \<open>The classifier\<close>

lemma startsWith_iff: "startsWith s p \<longleftrightarrow> (\<exists>v. s = p @ v)"
proof
  assume "startsWith s p"
  then have "s = p @ drop (length p) s"
    by (metis append_take_drop_id startsWith_def)
  then show "\<exists>v. s = p @ v" ..
next
  assume "\<exists>v. s = p @ v"
  then show "startsWith s p"
    by (auto simp: startsWith_def)
qed

lemma includes_str_iff: "includes_str s sub \<longleftrightarrow> (\<exists>u v. s = u @ sub @ v)"
proof (induction s)
  case Nil
  then show ?case by simp
next
  case (Cons c cs)
  have "(\<exists>u v. c # cs = u @ sub @ v) \<longleftrightarrow> (\<exists>v. c # cs = sub @ v) \<or> (\<exists>u v. cs = u @ sub @ v)"
  proof
    assume "\<exists>u v. c # cs = u @ sub @ v"
    then obtain u v where uv: "c # cs = u @ sub @ v" by blast
    show "(\<exists>v. c # cs = sub @ v) \<or> (\<exists>u v. cs = u @ sub @ v)"
    proof (cases u)
      case Nil
      with uv show ?thesis by auto
    next
      case (Cons a u')
      with uv have "cs = u' @ sub @ v" by simp
      then show ?thesis by blast
    qed
  next
    assume "(\<exists>v. c # cs = sub @ v) \<or> (\<exists>u v. cs = u @ sub @ v)"
    then show "\<exists>u v. c # cs = u @ sub @ v"
    proof
      assume "\<exists>v. c # cs = sub @ v"
      then obtain v where "c # cs = [] @ sub @ v" by auto
      then show ?thesis by blast
    next
      assume "\<exists>u v. cs = u @ sub @ v"
      then obtain u v where "cs = u @ sub @ v" by blast
      then have "c # cs = (c # u) @ sub @ v" by simp
      then show ?thesis by blast
    qed
  qed
  then show ?case
    using Cons.IH by (simp add: startsWith_iff)
qed

lemma includes_ci: "includes_str (toLowerCase field) (toLowerCase frag) \<longleftrightarrow> ciSubstring frag field"
  by (simp add: includes_str_iff ciSubstring_def)

lemma ciSubstring_empty_field: "ciSubstring frag [] \<Longrightarrow> ciSubstring frag field"
  by (auto simp: ciSubstring_def toLowerCase_def)

lemma isIgnoredSender_iff:
  "isIgnoredSender cfg email \<longleftrightarrow>
     (\<exists>frag\<in>set (ignoredSenders cfg).
        ciSubstring frag (e_from email) \<or>
        (\<exists>name. extractName (e_from email) = Some name \<and> ciSubstring frag name))"
proof -
  have each: "\<And>sender.
      (includes_str (toLowerCase (e_from email)) (toLowerCase sender) \<or>
        (case extractName (e_from email) of
           None \<Rightarrow> False
         | Some fromName \<Rightarrow>
             fromName \<noteq> [] \<and> includes_str (toLowerCase fromName) (toLowerCase sender)))
      \<longleftrightarrow>
      (ciSubstring sender (e_from email) \<or>
        (\<exists>name. extractName (e_from email) = Some name \<and> ciSubstring sender name))"
  proof -
    fix sender
    show "?thesis sender"
    proof (cases "extractName (e_from email)")
      case None
      then show ?thesis by (simp add: includes_ci)
    next
      case (Some name)
      show ?thesis
      proof (cases "name = []")
        case True
        then show ?thesis
          using Some ciSubstring_empty_field [of sender "e_from email"]
          by (auto simp: includes_ci)
      next
        case False
        then show ?thesis
          using Some by (simp add: includes_ci)
      qed
    qed
  qed
  show ?thesis
    unfolding isIgnoredSender_def list_ex_iff by (simp only: each)
qed

lemma isFromMe_iff:
  "isFromMe cfg email \<longleftrightarrow>
     (\<exists>addr\<in>set (myEmails cfg). \<exists>fromEmail.
        extractEmail (e_from email) = Some fromEmail \<and> ciSubstring addr fromEmail) \<or>
     (\<exists>name\<in>set (myNames cfg). \<exists>fromName.
        extractName (e_from email) = Some fromName \<and> ciSubstring name fromName)"
  unfolding isFromMe_def list_ex_iff includes_ci
  by (auto split: option.splits)

lemma isToMe_iff:
  "isToMe cfg email \<longleftrightarrow>
     (\<exists>toEmail\<in>set (extractEmails (e_to email)). \<exists>addr\<in>set (myEmails cfg).
        ciSubstring addr toEmail) \<or>
     (\<exists>toName\<in>set (extractNames (e_to email)). \<exists>name\<in>set (myNames cfg).
        ciSubstring name toName)"
  unfolding isToMe_def list_ex_iff includes_ci
  by auto

text \<open>
  Claim C1. \<open>isSelfEmail\<close> excludes a message exactly when some ignored-sender fragment
  is a case-insensitive substring of the raw \<open>from\<close> field or of the name extracted from
  it, or when both the sender matches (the extracted address contains one of \<open>myEmails\<close>,
  or the extracted name one of \<open>myNames\<close>) and some recipient matches in the same way. The
  first alternative does not mention the \<open>to\<close> field; without it, a sender match alone
  does not exclude.
\<close>

theorem C1_isSelfEmail_iff:
  "isSelfEmail cfg email \<longleftrightarrow>
     (\<exists>frag\<in>set (ignoredSenders cfg).
        ciSubstring frag (e_from email) \<or>
        (\<exists>name. extractName (e_from email) = Some name \<and> ciSubstring frag name)) \<or>
     (((\<exists>addr\<in>set (myEmails cfg). \<exists>fromEmail.
          extractEmail (e_from email) = Some fromEmail \<and> ciSubstring addr fromEmail) \<or>
       (\<exists>name\<in>set (myNames cfg). \<exists>fromName.
          extractName (e_from email) = Some fromName \<and> ciSubstring name fromName)) \<and>
      ((\<exists>toEmail\<in>set (extractEmails (e_to email)). \<exists>addr\<in>set (myEmails cfg).
          ciSubstring addr toEmail) \<or>
       (\<exists>toName\<in>set (extractNames (e_to email)). \<exists>name\<in>set (myNames cfg).
          ciSubstring name toName)))"
  unfolding isSelfEmail_def isIgnoredSender_iff isFromMe_iff isToMe_iff
  by (simp only: if_True if_False split: if_splits) blast

theorem C1_isSelfEmail_iff_witness:
  "isSelfEmail specConfig (message ''Mail Delivery Subsystem <bounce@x.com>'' ''B <b@x.com>'') \<and>
   \<not> isSelfEmail specConfig (message ''A <a@x.com>'' ''B <b@x.com>'') \<and>
   isSelfEmail specConfig (message ''A <a@x.com>'' ''B <b@x.com>, a@x.com'')"
proof -
  have bounce: "ciSubstring ''Mail Delivery Subsystem'' ''Mail Delivery Subsystem <bounce@x.com>''"
    unfolding includes_ci [symmetric] by code_simp
  have one: "isSelfEmail specConfig
      (message ''Mail Delivery Subsystem <bounce@x.com>'' ''B <b@x.com>'')"
    using C1_isSelfEmail_iff
      [of specConfig "message ''Mail Delivery Subsystem <bounce@x.com>'' ''B <b@x.com>''"] bounce
    by (simp add: specConfig_def message_def)
  have n1: "\<not> ciSubstring ''Mail Delivery Subsystem'' ''A <a@x.com>''"
    unfolding includes_ci [symmetric] by code_simp
  have n2: "\<not> ciSubstring ''Mail Delivery Subsystem'' ''A''"
    unfolding includes_ci [symmetric] by code_simp
  have n3: "\<not> ciSubstring ''a@x.com'' ''b@x.com''"
    unfolding includes_ci [symmetric] by code_simp
  have y1: "ciSubstring ''a@x.com'' ''a@x.com''"
    unfolding includes_ci [symmetric] by code_simp
  have nm: "extractName ''A <a@x.com>'' = Some ''A''"
    by code_simp
  have em: "extractEmail ''A <a@x.com>'' = Some ''a@x.com''"
    by code_simp
  have to1: "extractEmails ''B <b@x.com>'' = [''b@x.com'']"
    by code_simp
  have to2: "extractEmails ''B <b@x.com>, a@x.com'' = [''b@x.com'', ''a@x.com'']"
    by code_simp
  have two: "\<not> isSelfEmail specConfig (message ''A <a@x.com>'' ''B <b@x.com>'')"
    using C1_isSelfEmail_iff [of specConfig "message ''A <a@x.com>'' ''B <b@x.com>''"]
      n1 n2 n3 nm to1
    by (simp add: specConfig_def message_def)
  have three: "isSelfEmail specConfig (message ''A <a@x.com>'' ''B <b@x.com>, a@x.com'')"
    using C1_isSelfEmail_iff [of specConfig "message ''A <a@x.com>'' ''B <b@x.com>, a@x.com''"]
      y1 em to2
    by (simp add: specConfig_def message_def)
  from one two three show ?thesis
    by simp
qed

section \<open>Quoted-printable bodies\<close>

lemma replaceAll_local:
  assumes loc: "\<And>suf. suf \<noteq> [] \<Longrightarrow>
      matchItems re (suf @ rest) =
        (case matchItems re suf of None \<Rightarrow> None | Some (gs, r) \<Rightarrow> Some (gs, r @ rest))"
    and emp: "matchItems re [] = None"
  shows "replaceAll re f (pre @ rest) = replaceAll re f pre @ replaceAll re f rest"
proof (induction "length pre" arbitrary: pre rule: less_induct)
  case less
  show ?case
  proof (cases pre)
    case Nil
    then show ?thesis by (simp add: emp)
  next
    case (Cons c cs)
    show ?thesis
    proof (cases "matchItems re (c # cs)")
      case None
      then have "matchItems re (c # cs @ rest) = None"
        using loc [of "c # cs"] by simp
      moreover have "replaceAll re f (cs @ rest) = replaceAll re f cs @ replaceAll re f rest"
        using less [of cs] Cons by simp
      ultimately show ?thesis
        using None Cons by simp
    next
      case (Some res)
      obtain gs r where res: "res = (gs, r)" by (cases res)
      have m: "matchItems re (c # cs @ rest) = Some (gs, r @ rest)"
        using loc [of "c # cs"] Some res by simp
      show ?thesis
      proof (cases "length r < Suc (length cs)")
        case True
        then have "replaceAll re f (r @ rest) = replaceAll re f r @ replaceAll re f rest"
          using less [of r] Cons by simp
        then show ?thesis
          using Some res m True Cons by simp
      next
        case False
        have "replaceAll re f (cs @ rest) = replaceAll re f cs @ replaceAll re f rest"
          using less [of cs] Cons by simp
        then show ?thesis
          using Some res m False Cons by simp
      qed
    qed
  qed
qed

lemma takeWhile_append_stop: "\<not> P y \<Longrightarrow> takeWhile P (xs @ y # t) = takeWhile P xs"
  by (induction xs) auto

lemma softbreak_local:
  assumes "suf \<noteq> []"
  shows "matchItems re_softbreak (suf @ CHR ''='' # t) =
           (case matchItems re_softbreak suf of
              None \<Rightarrow> None
            | Some (gs, r) \<Rightarrow> Some (gs, r @ CHR ''='' # t))"
proof -
  obtain x xs where suf: "suf = x # xs"
    using assms by (cases suf) auto
  show ?thesis
  proof (cases xs)
    case Nil
    then show ?thesis
      by (simp add: suf re_softbreak_def matchItems_ch_Cons matchItems_ch_Nil
          matchItems_optional_Cons matchItems_optional_Nil)
  next
    case (Cons y ys)
    show ?thesis
    proof (cases ys)
      case Nil
      then show ?thesis
        by (simp add: suf Cons re_softbreak_def matchItems_ch_Cons matchItems_ch_Nil
            matchItems_optional_Cons matchItems_optional_Nil)
    next
      case (Cons z zs)
      then show ?thesis
        by (simp add: suf \<open>xs = y # ys\<close> re_softbreak_def matchItems_ch_Cons matchItems_ch_Nil
            matchItems_optional_Cons matchItems_optional_Nil)
    qed
  qed
qed

lemma softbreak_empty: "matchItems re_softbreak [] = None"
  by (simp add: re_softbreak_def matchItems_ch_Nil)

lemma softbreak_front: "matchItems re_softbreak (CHR ''='' # NL # b) = Some ([''='', [], [NL]], b)"
  by (simp add: re_softbreak_def matchItems_ch_Cons matchItems_optional_Cons)

lemma softbreak_none: "x \<noteq> CHR ''='' \<Longrightarrow> matchItems re_softbreak (x # s) = None"
  by (simp add: re_softbreak_def matchItems_ch_Cons)

lemma removeSoftBreaks_break:
  "removeSoftBreaks (a @ ''=\<newline>'' @ b) = removeSoftBreaks a @ removeSoftBreaks b"
proof -
  have "replaceAll re_softbreak (\<lambda>gs. []) (a @ CHR ''='' # NL # b) =
        replaceAll re_softbreak (\<lambda>gs. []) a @ replaceAll re_softbreak (\<lambda>gs. []) (CHR ''='' # NL # b)"
    by (rule replaceAll_local [OF softbreak_local softbreak_empty])
  then show ?thesis
    by (simp add: removeSoftBreaks_def softbreak_front)
qed

lemma counts_two: "counts 2 (Some 2) Greedy n = (if n < 2 then [] else [2])"
  by (simp add: counts_def Let_def min_def upt_rec)

lemma not_hex_eq: "\<not> isUpperHex (CHR ''='')"
  by (simp add: isUpperHex_def)

lemma hex_front:
  assumes "isUpperHex x" and "isUpperHex y"
  shows "matchItems re_hex (CHR ''='' # x # y # b) = Some ([''='', [x, y]], b)"
proof -
  have "2 \<le> length (takeWhile isUpperHex (x # y # b))"
    using assms by simp
  then show ?thesis
    by (simp add: re_hex_def matchItems_ch_Cons counts_two)
qed

lemma hex_empty: "matchItems re_hex [] = None"
  by (simp add: re_hex_def matchItems_ch_Nil)

lemma hex_none: "x \<noteq> CHR ''='' \<Longrightarrow> matchItems re_hex (x # s) = None"
  by (simp add: re_hex_def matchItems_ch_Cons)

lemma hex_local:
  assumes "suf \<noteq> []"
  shows "matchItems re_hex (suf @ CHR ''='' # t) =
           (case matchItems re_hex suf of
              None \<Rightarrow> None
            | Some (gs, r) \<Rightarrow> Some (gs, r @ CHR ''='' # t))"
proof -
  obtain x xs where suf: "suf = x # xs"
    using assms by (cases suf) auto
  have run: "takeWhile isUpperHex (xs @ CHR ''='' # t) = takeWhile isUpperHex xs"
    using not_hex_eq by (rule takeWhile_append_stop [of isUpperHex "CHR ''=''" xs t])
  have le: "length (takeWhile isUpperHex xs) \<le> length xs"
    by (rule length_takeWhile_le)
  show ?thesis
    using le by (auto simp: suf re_hex_def matchItems_ch_Cons run counts_two)
qed

lemma decodeEscapes_escape:
  assumes "isUpperHex x" and "isUpperHex y"
  shows "decodeEscapes (a @ ''='' @ [x, y] @ b) =
           decodeEscapes a @ [char_of (16 * hexDigit x + hexDigit y)] @ decodeEscapes b"
proof -
  have "replaceAll re_hex hexChar (a @ CHR ''='' # x # y # b) =
        replaceAll re_hex hexChar a @ replaceAll re_hex hexChar (CHR ''='' # x # y # b)"
    by (rule replaceAll_local [OF hex_local hex_empty])
  then show ?thesis
    by (simp add: decodeEscapes_def hex_front [OF assms] hexChar_def captured_def)
qed

lemma hex_not_special:
  assumes "isUpperHex x"
  shows "x \<noteq> CHR ''=''" and "x \<noteq> CR" and "x \<noteq> NL"
  using assms by (auto simp: isUpperHex_def)

lemma removeSoftBreaks_escape:
  assumes "isUpperHex x" and "isUpperHex y"
  shows "removeSoftBreaks (a @ ''='' @ [x, y] @ b) = removeSoftBreaks a @ ''='' @ [x, y] @ removeSoftBreaks b"
proof -
  have "replaceAll re_softbreak (\<lambda>gs. []) (a @ CHR ''='' # x # y # b) =
        replaceAll re_softbreak (\<lambda>gs. []) a @ replaceAll re_softbreak (\<lambda>gs. []) (CHR ''='' # x # y # b)"
    by (rule replaceAll_local [OF softbreak_local softbreak_empty])
  moreover have "matchItems re_softbreak (CHR ''='' # x # y # b) = None"
    using hex_not_special [OF assms(1)]
    by (simp add: re_softbreak_def matchItems_ch_Cons matchItems_optional_Cons)
  ultimately show ?thesis
    using hex_not_special [OF assms(1)] hex_not_special [OF assms(2)]
    by (simp add: removeSoftBreaks_def softbreak_none)
qed

lemma replaceAll_none:
  assumes "\<And>x s. x \<noteq> c \<Longrightarrow> matchItems re (x # s) = None" and "matchItems re [] = None"
    and "c \<notin> set s"
  shows "replaceAll re f s = s"
  using assms(3) by (induction s) (auto simp: assms(1,2))

lemma trim_ends:
  "trim s = [] \<or> (\<not> isWhiteSpace (hd (trim s)) \<and> \<not> isWhiteSpace (last (trim s)))"
proof (cases "trim s = []")
  case True
  then show ?thesis ..
next
  case False
  define t where "t = dropWhile isWhiteSpace s"
  define u where "u = dropWhile isWhiteSpace (rev t)"
  have tr: "trim s = rev u"
    by (simp add: trim_def t_def u_def)
  with False have une: "u \<noteq> []" by simp
  have hu: "\<not> isWhiteSpace (hd u)"
    using une hd_dropWhile [of isWhiteSpace "rev t"] by (simp add: u_def)
  have "rev t = takeWhile isWhiteSpace (rev t) @ u"
    by (simp add: u_def)
  then have "last (rev t) = last u"
    using une by (metis last_appendR)
  moreover have tne: "t \<noteq> []"
    using une by (auto simp: u_def)
  ultimately have "last u = hd t"
    by (simp add: last_rev)
  moreover have "\<not> isWhiteSpace (hd t)"
    using tne hd_dropWhile [of isWhiteSpace s] by (simp add: t_def)
  ultimately have "\<not> isWhiteSpace (last u)" by simp
  then show ?thesis
    using hu une by (simp add: tr hd_rev last_rev)
qed

lemma hexDigit_less: "isUpperHex x \<Longrightarrow> hexDigit x < 16"
  by (auto simp: isUpperHex_def hexDigit_def Let_def)

text \<open>
  Claim C7. \<open>cleanBody\<close> removes a soft line break wherever one occurs in the body, replaces
  an escape \<open>=XY\<close> of two upper-case hex digits, wherever one occurs, by the one character
  with code \<open>16 * X + Y\<close>, leaves a body without \<open>=\<close> as it is, and trims the result, which
  therefore neither starts nor ends with white space. It is a total function. The two
  examples of the specification evaluate as stated.
\<close>

theorem C7_cleanBody:
  "cleanBody (a @ ''=\<newline>'' @ b) = trim (decodeEscapes (removeSoftBreaks a @ removeSoftBreaks b)) \<and>
   (isUpperHex x \<and> isUpperHex y \<longrightarrow>
      cleanBody (a @ ''='' @ [x, y] @ b) =
        trim (decodeEscapes (removeSoftBreaks a) @ [char_of (16 * hexDigit x + hexDigit y)] @
              decodeEscapes (removeSoftBreaks b)) \<and>
      (of_char (char_of (16 * hexDigit x + hexDigit y) :: char) :: nat) =
        16 * hexDigit x + hexDigit y) \<and>
   (CHR ''='' \<notin> set body \<longrightarrow> cleanBody body = trim body) \<and>
   (cleanBody body = [] \<or>
      (\<not> isWhiteSpace (hd (cleanBody body)) \<and> \<not> isWhiteSpace (last (cleanBody body)))) \<and>
   cleanBody ''Caf=E9'' = ''Caf'' @ [CHR 0xE9] \<and>
   cleanBody ''line1=\<newline>line2'' = ''line1line2''"
proof -
  have soft: "cleanBody (a @ ''=\<newline>'' @ b) =
      trim (decodeEscapes (removeSoftBreaks a @ removeSoftBreaks b))"
    by (simp only: cleanBody_def removeSoftBreaks_break)
  have esc: "isUpperHex x \<and> isUpperHex y \<longrightarrow>
      cleanBody (a @ ''='' @ [x, y] @ b) =
        trim (decodeEscapes (removeSoftBreaks a) @ [char_of (16 * hexDigit x + hexDigit y)] @
              decodeEscapes (removeSoftBreaks b)) \<and>
      (of_char (char_of (16 * hexDigit x + hexDigit y) :: char) :: nat) =
        16 * hexDigit x + hexDigit y"
  proof (intro impI conjI)
    assume h: "isUpperHex x \<and> isUpperHex y"
    then have hx: "isUpperHex x" and hy: "isUpperHex y" by simp_all
    show "cleanBody (a @ ''='' @ [x, y] @ b) =
        trim (decodeEscapes (removeSoftBreaks a) @ [char_of (16 * hexDigit x + hexDigit y)] @
              decodeEscapes (removeSoftBreaks b))"
      by (simp only: cleanBody_def removeSoftBreaks_escape [OF hx hy]
          decodeEscapes_escape [OF hx hy])
    have "16 * hexDigit x + hexDigit y < 256"
      using hexDigit_less [OF hx] hexDigit_less [OF hy] by simp
    then show "(of_char (char_of (16 * hexDigit x + hexDigit y) :: char) :: nat) =
        16 * hexDigit x + hexDigit y"
      by simp
  qed
  have plain: "CHR ''='' \<notin> set body \<longrightarrow> cleanBody body = trim body"
  proof
    assume ne: "CHR ''='' \<notin> set body"
    have "removeSoftBreaks body = body"
      unfolding removeSoftBreaks_def
      using softbreak_none softbreak_empty ne by (rule replaceAll_none)
    moreover have "decodeEscapes body = body"
      unfolding decodeEscapes_def
      using hex_none hex_empty ne by (rule replaceAll_none)
    ultimately show "cleanBody body = trim body"
      by (simp add: cleanBody_def)
  qed
  have ends: "cleanBody body = [] \<or>
      (\<not> isWhiteSpace (hd (cleanBody body)) \<and> \<not> isWhiteSpace (last (cleanBody body)))"
    unfolding cleanBody_def by (rule trim_ends)
  have ex1: "cleanBody ''Caf=E9'' = ''Caf'' @ [CHR 0xE9]"
    by code_simp
  have ex2: "cleanBody ''line1=\<newline>line2'' = ''line1line2''"
    by code_simp
  from soft esc plain ends ex1 ex2 show ?thesis
    by (intro conjI)
qed

theorem C7_cleanBody_witness:
  "cleanBody (''Caf'' @ ''='' @ [CHR ''E'', CHR ''9''] @ '' au lait'') =
     ''Caf'' @ [CHR 0xE9] @ '' au lait'' \<and>
   cleanBody '' plain text '' = ''plain text''"
proof -
  have hx: "isUpperHex (CHR ''E'') \<and> isUpperHex (CHR ''9'')"
    by code_simp
  have ne: "CHR ''='' \<notin> set '' plain text ''"
    by simp
  have v: "trim (decodeEscapes (removeSoftBreaks ''Caf'') @
              [char_of (16 * hexDigit (CHR ''E'') + hexDigit (CHR ''9''))] @
              decodeEscapes (removeSoftBreaks '' au lait'')) = ''Caf'' @ [CHR 0xE9] @ '' au lait''"
    by code_simp
  have t: "trim '' plain text '' = ''plain text''"
    by code_simp
  note inst = C7_cleanBody [of "''Caf''" "'' au lait''" "CHR ''E''" "CHR ''9''" "'' plain text ''"]
  from inst hx have "cleanBody (''Caf'' @ ''='' @ [CHR ''E'', CHR ''9''] @ '' au lait'') =
      trim (decodeEscapes (removeSoftBreaks ''Caf'') @
              [char_of (16 * hexDigit (CHR ''E'') + hexDigit (CHR ''9''))] @
              decodeEscapes (removeSoftBreaks '' au lait''))"
    by blast
  then have one: "cleanBody (''Caf'' @ ''='' @ [CHR ''E'', CHR ''9''] @ '' au lait'') =
      ''Caf'' @ [CHR 0xE9] @ '' au lait''"
    by (simp only: v)
  from inst ne have "cleanBody '' plain text '' = trim '' plain text ''"
    by blast
  then have two: "cleanBody '' plain text '' = ''plain text''"
    by (simp only: t)
  from one two show ?thesis
    by (rule conjI)
qed

section \<open>Encoded header words\<close>











section \<open>The splitter\<close>













end
